theory Spec2Isabelle
  imports Complex_Main "HOL-Library.Multiset"
begin

section \<open>The grid and the Sudoku object\<close>

text \<open>
  The C++ class \<open>Sudoku\<close> holds \<open>size\<close>, \<open>boxSize\<close>, the \<open>board\<close> and the
  \<open>solution\<close> (both \<open>vector<vector<int>>\<close>), the \<open>steps\<close> counter, the \<open>solver\<close>
  strategy and the random generator \<open>rng\<close>.  The model keeps the first five in a record.
  The strategy (a \<open>std::function\<close> over the object itself) and the generator are passed
  beside the record wherever the source reads them.

  \<^item> \<open>size\<close> and \<open>boxSize\<close> are C++ \<open>int\<close>s that are never negative once the constructor
    has returned (a negative size makes the allocation of the board throw); they are
    \<open>nat\<close> here.  The field \<open>size\<close> is called \<open>sizeN\<close>.
  \<^item> Cells are \<open>int\<close>.  The only values ever written are candidates \<open>1..size\<close> and \<open>0\<close>.
  \<^item> \<open>steps\<close> is a C++ \<open>int\<close>; the model counts in \<open>int\<close> without a bound (its
    overflow is undefined in C++ and is not modelled).
  \<^item> \<open>trace\<close> is a ghost field, not a member of the class: the history of what the
    solver did, in order.  \<open>Call row col\<close> is one invocation of the recursive lambda
    \<open>backtrack\<close>, \<open>Place row col num\<close> is the write \<open>board[row][col] = num\<close> and
    \<open>Undo row col\<close> is the write \<open>board[row][col] = 0\<close>.  The display callback runs
    right after each \<open>Place\<close> and each \<open>Undo\<close>; it only prints and is not modelled.
\<close>

type_synonym grid = "int list list"

datatype event = Call nat nat | Place nat nat int | Undo nat nat

record sudoku =
  sizeN :: nat
  boxSize :: nat
  board :: grid
  solution :: grid
  steps :: int
  trace :: "event list"

text \<open>
  Results of the model.  \<open>OutOfFuel\<close>: the recursion did not finish within the given
  number of calls (a recursion that never returns gives \<open>OutOfFuel\<close> for every amount).
  \<open>Undefined\<close>: the source reads or writes a vector out of range, or divides by zero.
  \<open>NoSolverProvided\<close>: the \<open>runtime_error\<close> thrown by \<open>solve\<close>.
\<close>

datatype error = OutOfFuel | Undefined | NoSolverProvided

definition cell :: "grid \<Rightarrow> nat \<Rightarrow> nat \<Rightarrow> int option" where
  "cell g r c = (if r < length g \<and> c < length (g ! r) then Some (g ! r ! c) else None)"

definition set_cell :: "grid \<Rightarrow> nat \<Rightarrow> nat \<Rightarrow> int \<Rightarrow> grid" where
  "set_cell g r c v = g[r := (g ! r)[c := v]]"

text \<open>\<open>createEmptyBoard\<close>: \<open>size\<close> rows of \<open>size\<close> zeros.\<close>

definition createEmptyBoard :: "nat \<Rightarrow> grid" where
  "createEmptyBoard n = replicate n (replicate n 0)"

section \<open>Constraint checks\<close>

text \<open>
  The loops of \<open>isValidInColumn\<close> and \<open>isValidInBox\<close> read the cells of a list of
  positions in order and return \<open>false\<close> at the first one that holds \<open>num\<close>; a read out
  of range before that is undefined.
\<close>

fun none_equal :: "grid \<Rightarrow> int \<Rightarrow> (nat \<times> nat) list \<Rightarrow> error + bool" where
  "none_equal g num [] = Inr True"
| "none_equal g num ((r, c) # ps) =
     (case cell g r c of
        None \<Rightarrow> Inl Undefined
      | Some v \<Rightarrow> if v = num then Inr False else none_equal g num ps)"

text \<open>\<open>isValidInRow\<close>: \<open>std::find\<close> over the whole of \<open>targetBoard[row]\<close>.\<close>

definition isValidInRow :: "grid \<Rightarrow> nat \<Rightarrow> int \<Rightarrow> error + bool" where
  "isValidInRow g row num =
     (if row < length g then Inr (num \<notin> set (g ! row)) else Inl Undefined)"

text \<open>\<open>isValidInColumn\<close>: \<open>for (i = 0; i < size; ++i) if (targetBoard[i][col] == num) return false\<close>.\<close>

definition isValidInColumn :: "nat \<Rightarrow> grid \<Rightarrow> nat \<Rightarrow> int \<Rightarrow> error + bool" where
  "isValidInColumn n g col num = none_equal g num (map (\<lambda>i. (i, col)) [0..<n])"

text \<open>
  \<open>isValidInBox\<close>: \<open>boxRow = row - row % boxSize\<close>, \<open>boxCol = col - col % boxSize\<close>, then
  \<open>i\<close> and \<open>j\<close> run over \<open>0..boxSize-1\<close>, \<open>j\<close> innermost.  \<open>row % 0\<close> is undefined.
\<close>

definition isValidInBox :: "nat \<Rightarrow> grid \<Rightarrow> nat \<Rightarrow> nat \<Rightarrow> int \<Rightarrow> error + bool" where
  "isValidInBox b g row col num =
     (if b = 0 then Inl Undefined
      else let boxRow = row - row mod b; boxCol = col - col mod b
           in none_equal g num
                (map (\<lambda>(i, j). (boxRow + i, boxCol + j)) (List.product [0..<b] [0..<b])))"

text \<open>The short-circuit \<open>&&\<close>: the right operand is evaluated only if the left is true.\<close>

definition and_then :: "error + bool \<Rightarrow> error + bool \<Rightarrow> error + bool" where
  "and_then x y = (case x of Inl e \<Rightarrow> Inl e | Inr False \<Rightarrow> Inr False | Inr True \<Rightarrow> y)"

text \<open>The private \<open>isValidPlacement(targetBoard, row, col, num)\<close>.\<close>

definition isValidPlacementOn :: "nat \<Rightarrow> nat \<Rightarrow> grid \<Rightarrow> nat \<Rightarrow> nat \<Rightarrow> int \<Rightarrow> error + bool" where
  "isValidPlacementOn n b g row col num =
     and_then (isValidInRow g row num)
       (and_then (isValidInColumn n g col num) (isValidInBox b g row col num))"

text \<open>
  The public, \<open>const\<close> \<open>isValidPlacement(row, col, num)\<close>: the same three checks on the
  object's own board.  It returns the boolean only; the object is not returned because
  the method cannot change it.
\<close>

definition isValidPlacement :: "sudoku \<Rightarrow> nat \<Rightarrow> nat \<Rightarrow> int \<Rightarrow> error + bool" where
  "isValidPlacement s row col num =
     and_then (isValidInRow (board s) row num)
       (and_then (isValidInColumn (sizeN s) (board s) col num)
                 (isValidInBox (boxSize s) (board s) row col num))"

section \<open>The backtracking solver strategy\<close>

text \<open>
  \<open>bruteForceSolver\<close> runs the recursive lambda \<open>backtrack(row, col)\<close> from \<open>(0, 0)\<close>.
  \<open>backtrack\<close> is the body of the lambda up to the \<open>for\<close> loop and \<open>try_nums\<close> is the loop,
  entered with \<open>num = 1\<close>.  The first argument is the fuel: every call of \<open>backtrack\<close>
  and every iteration of the loop uses one unit.

  The writes at \<open>(row, col)\<close> are in range: the read \<open>getBoard()[row][col]\<close> at the same
  position came first, and no write changes the shape of the board.
\<close>

definition place :: "sudoku \<Rightarrow> nat \<Rightarrow> nat \<Rightarrow> int \<Rightarrow> sudoku" where
  "place s row col num =
     s\<lparr>board := set_cell (board s) row col num, trace := trace s @ [Place row col num]\<rparr>"

definition undo :: "sudoku \<Rightarrow> nat \<Rightarrow> nat \<Rightarrow> sudoku" where
  "undo s row col =
     s\<lparr>board := set_cell (board s) row col 0, trace := trace s @ [Undo row col]\<rparr>"

definition enter :: "sudoku \<Rightarrow> nat \<Rightarrow> nat \<Rightarrow> sudoku" where
  "enter s row col = s\<lparr>steps := steps s + 1, trace := trace s @ [Call row col]\<rparr>"

fun backtrack :: "nat \<Rightarrow> nat \<Rightarrow> nat \<Rightarrow> sudoku \<Rightarrow> error + (bool \<times> sudoku)"
  and try_nums :: "nat \<Rightarrow> nat \<Rightarrow> nat \<Rightarrow> nat \<Rightarrow> sudoku \<Rightarrow> error + (bool \<times> sudoku)"
where
  "backtrack 0 row col s = Inl OutOfFuel"
| "backtrack (Suc k) row col s =
     (let s1 = enter s row col in
      if col = sizeN s1 then backtrack k (row + 1) 0 s1
      else if row = sizeN s1 then Inr (True, s1)
      else (case cell (board s1) row col of
              None \<Rightarrow> Inl Undefined
            | Some v \<Rightarrow>
                if v \<noteq> 0 then backtrack k row (col + 1) s1
                else try_nums k row col 1 s1))"
| "try_nums 0 row col num s = Inl OutOfFuel"
| "try_nums (Suc k) row col num s =
     (if sizeN s < num then Inr (False, s)
      else (case isValidPlacement s row col (int num) of
              Inl e \<Rightarrow> Inl e
            | Inr False \<Rightarrow> try_nums k row col (num + 1) s
            | Inr True \<Rightarrow>
                (case backtrack k row (col + 1) (place s row col (int num)) of
                   Inl e \<Rightarrow> Inl e
                 | Inr (True, s') \<Rightarrow> Inr (True, s')
                 | Inr (False, s') \<Rightarrow> try_nums k row col (num + 1) (undo s' row col))))"

text \<open>\<open>bruteForceSolver\<close>: \<open>isSolved = backtrack(0, 0)\<close>; the messages are not modelled.\<close>

definition bruteForceSolver :: "nat \<Rightarrow> sudoku \<Rightarrow> error + (bool \<times> sudoku)" where
  "bruteForceSolver k s = backtrack k 0 0 s"

section \<open>Generation\<close>

subsection \<open>The generation-time solve\<close>

text \<open>
  \<open>findEmptyCell\<close>: the first position, rows outermost, whose cell is \<open>0\<close>;
  \<open>nullopt\<close> is \<open>None\<close>.
\<close>

fun first_empty :: "grid \<Rightarrow> (nat \<times> nat) list \<Rightarrow> error + (nat \<times> nat) option" where
  "first_empty g [] = Inr None"
| "first_empty g ((i, j) # ps) =
     (case cell g i j of
        None \<Rightarrow> Inl Undefined
      | Some v \<Rightarrow> if v = 0 then Inr (Some (i, j)) else first_empty g ps)"

definition findEmptyCell :: "nat \<Rightarrow> grid \<Rightarrow> error + (nat \<times> nat) option" where
  "findEmptyCell n g = first_empty g (List.product [0..<n] [0..<n])"

text \<open>
  \<open>solveBoard(targetBoard)\<close>.  Its only call is \<open>solveBoard(board)\<close>, so the reference
  \<open>targetBoard\<close> is the member \<open>board\<close> itself: the writes to \<open>targetBoard[row][col]\<close>
  are writes to the board, and \<open>board = targetBoard\<close> assigns the board to itself.
  \<open>solveBoard_nums\<close> is the \<open>for\<close> loop, entered with \<open>num = 1\<close>.  The position comes from
  \<open>findEmptyCell\<close>, which has read it, so the writes are in range.  The counter
  \<open>steps\<close> is not touched and nothing is displayed.
\<close>

fun solveBoard :: "nat \<Rightarrow> sudoku \<Rightarrow> error + (bool \<times> sudoku)"
  and solveBoard_nums :: "nat \<Rightarrow> nat \<Rightarrow> nat \<Rightarrow> nat \<Rightarrow> sudoku \<Rightarrow> error + (bool \<times> sudoku)"
where
  "solveBoard 0 s = Inl OutOfFuel"
| "solveBoard (Suc k) s =
     (case findEmptyCell (sizeN s) (board s) of
        Inl e \<Rightarrow> Inl e
      | Inr None \<Rightarrow> Inr (True, s)
      | Inr (Some (row, col)) \<Rightarrow> solveBoard_nums k row col 1 s)"
| "solveBoard_nums 0 row col num s = Inl OutOfFuel"
| "solveBoard_nums (Suc k) row col num s =
     (if sizeN s < num then Inr (False, s)
      else (case isValidPlacementOn (sizeN s) (boxSize s) (board s) row col (int num) of
              Inl e \<Rightarrow> Inl e
            | Inr False \<Rightarrow> solveBoard_nums k row col (num + 1) s
            | Inr True \<Rightarrow>
                (case solveBoard k (s\<lparr>board := set_cell (board s) row col (int num)\<rparr>) of
                   Inl e \<Rightarrow> Inl e
                 | Inr (True, s') \<Rightarrow> Inr (True, s'\<lparr>board := board s'\<rparr>)
                 | Inr (False, s') \<Rightarrow>
                     solveBoard_nums k row col (num + 1)
                       (s'\<lparr>board := set_cell (board s') row col 0\<rparr>))))"

subsection \<open>Random shuffles\<close>

text \<open>
  \<open>std::shuffle\<close> and the generator \<open>mt19937\<close> belong to the C++ library.  They are a
  parameter \<open>draw\<close> of the model: for a length and a generator state it gives the order
  in which the shuffled vector holds the old positions, and the next state.
  \<open>fair draw\<close> says that every such order is a permutation of the positions, which is
  what \<open>std::shuffle\<close> guarantees.
\<close>

definition shuffle :: "(nat \<Rightarrow> 'r \<Rightarrow> nat list \<times> 'r) \<Rightarrow> 'a list \<Rightarrow> 'r \<Rightarrow> 'a list \<times> 'r" where
  "shuffle draw xs rng = (let (p, rng') = draw (length xs) rng in (map (\<lambda>i. xs ! i) p, rng'))"

definition fair :: "(nat \<Rightarrow> 'r \<Rightarrow> nat list \<times> 'r) \<Rightarrow> bool" where
  "fair draw \<longleftrightarrow> (\<forall>len rng. mset (fst (draw len rng)) = mset [0..<len])"

subsection \<open>Seeding the diagonal boxes\<close>

text \<open>
  \<open>fillBox\<close>: \<open>numbers\<close> is \<open>1..size\<close> shuffled; the two loops write
  \<open>board[startRow + i][startCol + j] = numbers[index++]\<close>.  A write outside the board
  or a read past the end of \<open>numbers\<close> is undefined.
\<close>

fun fillBox_cells ::
  "int list \<Rightarrow> nat \<Rightarrow> nat \<Rightarrow> (nat \<times> nat) list \<Rightarrow> nat \<Rightarrow> grid \<Rightarrow> error + grid" where
  "fillBox_cells numbers startRow startCol [] index g = Inr g"
| "fillBox_cells numbers startRow startCol ((i, j) # ps) index g =
     (if index < length numbers \<and> startRow + i < length g \<and>
         startCol + j < length (g ! (startRow + i))
      then fillBox_cells numbers startRow startCol ps (index + 1)
             (set_cell g (startRow + i) (startCol + j) (numbers ! index))
      else Inl Undefined)"

definition fillBox ::
  "(nat \<Rightarrow> 'r \<Rightarrow> nat list \<times> 'r) \<Rightarrow> nat \<Rightarrow> nat \<Rightarrow> sudoku \<Rightarrow> 'r \<Rightarrow> error + (sudoku \<times> 'r)" where
  "fillBox draw startRow startCol s rng =
     (let (numbers, rng') = shuffle draw (map int [1..<sizeN s + 1]) rng
      in case fillBox_cells numbers startRow startCol
                (List.product [0..<boxSize s] [0..<boxSize s]) 0 (board s) of
           Inl e \<Rightarrow> Inl e
         | Inr g \<Rightarrow> Inr (s\<lparr>board := g\<rparr>, rng'))"

text \<open>
  \<open>fillDiagonalBoxes\<close>: \<open>for (i = 0; i < size; i += boxSize) fillBox(i, i)\<close>.  With
  \<open>boxSize = 0\<close> and \<open>size > 0\<close> the loop never ends, hence the fuel.
\<close>

fun fillDiagonalBoxes_from ::
  "nat \<Rightarrow> (nat \<Rightarrow> 'r \<Rightarrow> nat list \<times> 'r) \<Rightarrow> nat \<Rightarrow> sudoku \<Rightarrow> 'r \<Rightarrow> error + (sudoku \<times> 'r)" where
  "fillDiagonalBoxes_from 0 draw i s rng = Inl OutOfFuel"
| "fillDiagonalBoxes_from (Suc k) draw i s rng =
     (if i < sizeN s
      then (case fillBox draw i i s rng of
              Inl e \<Rightarrow> Inl e
            | Inr (s', rng') \<Rightarrow> fillDiagonalBoxes_from k draw (i + boxSize s') s' rng')
      else Inr (s, rng))"

definition fillDiagonalBoxes ::
  "nat \<Rightarrow> (nat \<Rightarrow> 'r \<Rightarrow> nat list \<times> 'r) \<Rightarrow> sudoku \<Rightarrow> 'r \<Rightarrow> error + (sudoku \<times> 'r)" where
  "fillDiagonalBoxes k draw s rng = fillDiagonalBoxes_from k draw 0 s rng"

subsection \<open>Removing digits\<close>

text \<open>
  \<open>removeDigits(difficulty)\<close>.  \<open>difficulty\<close> is a \<open>double\<close>; the model computes
  \<open>size * size * difficulty\<close> exactly, in the rationals, and \<open>static_cast<int>\<close> cuts the
  fraction off towards zero.  The product \<open>size * size\<close> is an \<open>int\<close> product, undefined
  when it overflows, and so is the cast of a value outside the range of \<open>int\<close>.
  \<open>allCells\<close> holds the positions with the row outermost.
\<close>

definition INT_MAX :: int where
  "INT_MAX = 2147483647"

definition cast_to_int :: "rat \<Rightarrow> int" where
  "cast_to_int x = (if 0 \<le> x then \<lfloor>x\<rfloor> else \<lceil>x\<rceil>)"

definition allCells :: "nat \<Rightarrow> (nat \<times> nat) list" where
  "allCells n = List.product [0..<n] [0..<n]"

fun clear_cells :: "(nat \<times> nat) list \<Rightarrow> grid \<Rightarrow> error + grid" where
  "clear_cells [] g = Inr g"
| "clear_cells ((row, col) # ps) g =
     (if row < length g \<and> col < length (g ! row)
      then clear_cells ps (set_cell g row col 0)
      else Inl Undefined)"

definition removeDigits ::
  "(nat \<Rightarrow> 'r \<Rightarrow> nat list \<times> 'r) \<Rightarrow> rat \<Rightarrow> sudoku \<Rightarrow> 'r \<Rightarrow> error + (sudoku \<times> 'r)" where
  "removeDigits draw difficulty s rng =
     (let n = int (sizeN s) in
      if INT_MAX < n * n then Inl Undefined
      else
        let cellsToRemove = cast_to_int (of_int (n * n) * difficulty) in
        if cellsToRemove < - INT_MAX - 1 \<or> INT_MAX < cellsToRemove then Inl Undefined
        else
          let (cells, rng') = shuffle draw (allCells (sizeN s)) rng;
              m = min cellsToRemove (int (length (allCells (sizeN s))))
          in case clear_cells (take (nat m) cells) (board s) of
               Inl e \<Rightarrow> Inl e
             | Inr g \<Rightarrow> Inr (s\<lparr>board := g\<rparr>, rng'))"

subsection \<open>The constructor and \<open>solve\<close>\<close>

definition DEFAULT_SIZE :: nat where
  "DEFAULT_SIZE = 9"

definition DEFAULT_DIFFICULTY :: rat where
  "DEFAULT_DIFFICULTY = 7 / 10"

text \<open>
  \<open>generatePuzzle\<close>: seed, solve, keep the board as the solution, remove digits.  The
  boolean that \<open>solveBoard\<close> returns is dropped, as in the source.
\<close>

definition generatePuzzle ::
  "nat \<Rightarrow> (nat \<Rightarrow> 'r \<Rightarrow> nat list \<times> 'r) \<Rightarrow> sudoku \<Rightarrow> 'r \<Rightarrow> error + (sudoku \<times> 'r)" where
  "generatePuzzle k draw s rng =
     (case fillDiagonalBoxes k draw s rng of
        Inl e \<Rightarrow> Inl e
      | Inr (s1, rng1) \<Rightarrow>
          (case solveBoard k s1 of
             Inl e \<Rightarrow> Inl e
           | Inr (_, s2) \<Rightarrow> removeDigits draw DEFAULT_DIFFICULTY (s2\<lparr>solution := board s2\<rparr>) rng1))"

text \<open>
  \<open>boxSize(static_cast<int>(sqrt(boardSize)))\<close>: the integer part of the square root.
\<close>

fun isqrt_upto :: "nat \<Rightarrow> nat \<Rightarrow> nat" where
  "isqrt_upto n 0 = 0"
| "isqrt_upto n (Suc k) = (if Suc k * Suc k \<le> n then Suc k else isqrt_upto n k)"

definition isqrt :: "nat \<Rightarrow> nat" where
  "isqrt n = isqrt_upto n n"

text \<open>
  A solver strategy is a \<open>function<bool(Sudoku&, function<void()>)>\<close>: it takes the
  object (and the fuel of the model) and returns the boolean and the object as it
  left it.  The member \<open>solver\<close> may be empty (\<open>nullptr\<close>, the default argument).
  An object of the class is its strategy and its record.
\<close>

type_synonym strategy = "nat \<Rightarrow> sudoku \<Rightarrow> error + (bool \<times> sudoku)"

text \<open>
  The constructor \<open>Sudoku(boardSize, solverFunc)\<close>: initialise the members (\<open>initial\<close>:
  the empty board, \<open>steps = 0\<close>, an empty \<open>solution\<close>), then \<open>generatePuzzle()\<close>.
  Neither argument is checked.
\<close>

definition initial :: "nat \<Rightarrow> sudoku" where
  "initial boardSize =
     \<lparr>sizeN = boardSize, boxSize = isqrt boardSize, board = createEmptyBoard boardSize,
      solution = [], steps = 0, trace = []\<rparr>"

definition Sudoku ::
  "nat \<Rightarrow> (nat \<Rightarrow> 'r \<Rightarrow> nat list \<times> 'r) \<Rightarrow> nat \<Rightarrow> strategy option \<Rightarrow> 'r
     \<Rightarrow> error + ((strategy option \<times> sudoku) \<times> 'r)" where
  "Sudoku k draw boardSize solverFunc rng =
     (case generatePuzzle k draw (initial boardSize) rng of
        Inl e \<Rightarrow> Inl e
      | Inr (s, rng') \<Rightarrow> Inr ((solverFunc, s), rng'))"


section \<open>Notions of the specification\<close>

text \<open>
  A grid of the data model: a positive size with an integer square root, and a board of
  \<open>size\<close> rows of \<open>size\<close> cells.
\<close>

definition well_formed :: "sudoku \<Rightarrow> bool" where
  "well_formed s \<longleftrightarrow>
     0 < sizeN s \<and> sizeN s = boxSize s * boxSize s \<and>
     map length (board s) = replicate (sizeN s) (sizeN s)"

text \<open>
  \<open>same_frame s t\<close>: the states agree on everything but the cells, the counter and the
  trace, and their boards have the same shape.
\<close>

definition same_frame :: "sudoku \<Rightarrow> sudoku \<Rightarrow> bool" where
  "same_frame s t \<longleftrightarrow>
     sizeN t = sizeN s \<and> boxSize t = boxSize s \<and> solution t = solution s \<and>
     map length (board t) = map length (board s)"

text \<open>
  Rows, columns and boxes as lists of positions.  The box with corner \<open>(br, bc)\<close> spans
  rows \<open>br..br + b - 1\<close> and columns \<open>bc..bc + b - 1\<close>; the boxes of the grid have their
  corners at the multiples of \<open>b\<close>.
\<close>

definition cell_at :: "grid \<Rightarrow> nat \<times> nat \<Rightarrow> int" where
  "cell_at g p = g ! fst p ! snd p"

definition row_positions :: "nat \<Rightarrow> nat \<Rightarrow> (nat \<times> nat) list" where
  "row_positions n r = map (\<lambda>c. (r, c)) [0..<n]"

definition col_positions :: "nat \<Rightarrow> nat \<Rightarrow> (nat \<times> nat) list" where
  "col_positions n c = map (\<lambda>r. (r, c)) [0..<n]"

definition box_positions :: "nat \<Rightarrow> nat \<Rightarrow> nat \<Rightarrow> (nat \<times> nat) list" where
  "box_positions b br bc = map (\<lambda>(i, j). (br + i, bc + j)) (List.product [0..<b] [0..<b])"

definition all_units :: "nat \<Rightarrow> nat \<Rightarrow> (nat \<times> nat) list list" where
  "all_units n b =
     map (row_positions n) [0..<n] @ map (col_positions n) [0..<n] @
     map (\<lambda>(bi, bj). box_positions b (bi * b) (bj * b)) (List.product [0..<b] [0..<b])"

definition unit_values :: "grid \<Rightarrow> (nat \<times> nat) list \<Rightarrow> int list" where
  "unit_values g ps = map (cell_at g) ps"

text \<open>Solved: every row, column and box holds each of \<open>1..n\<close> exactly once.\<close>

definition solved :: "nat \<Rightarrow> nat \<Rightarrow> grid \<Rightarrow> bool" where
  "solved n b g \<longleftrightarrow>
     (\<forall>u \<in> set (all_units n b). \<forall>v \<in> set [1..int n]. count_list (unit_values g u) v = 1)"

text \<open>
  A valid partial state: every cell is in \<open>0..n\<close> and no value other than \<open>0\<close> repeats
  in a row, column or box.
\<close>

definition valid_partial :: "nat \<Rightarrow> nat \<Rightarrow> grid \<Rightarrow> bool" where
  "valid_partial n b g \<longleftrightarrow>
     (\<forall>p \<in> set (allCells n). 0 \<le> cell_at g p \<and> cell_at g p \<le> int n) \<and>
     (\<forall>u \<in> set (all_units n b). distinct (filter (\<lambda>v. v \<noteq> 0) (unit_values g u)))"

text \<open>No cell is empty.\<close>

definition full :: "nat \<Rightarrow> grid \<Rightarrow> bool" where
  "full n g \<longleftrightarrow> (\<forall>p \<in> set (allCells n). cell_at g p \<noteq> 0)"

text \<open>
  \<open>keeps_givens n g g'\<close>: the grid \<open>g'\<close> has the shape of \<open>g\<close> and agrees with it wherever
  \<open>g\<close> is not empty.  A completion of \<open>g\<close> is a solved grid that keeps its givens.
\<close>

definition keeps_givens :: "nat \<Rightarrow> grid \<Rightarrow> grid \<Rightarrow> bool" where
  "keeps_givens n g g' \<longleftrightarrow>
     map length g' = map length g \<and>
     (\<forall>p \<in> set (allCells n). cell_at g p \<noteq> 0 \<longrightarrow> cell_at g' p = cell_at g p)"

definition completion :: "nat \<Rightarrow> nat \<Rightarrow> grid \<Rightarrow> grid \<Rightarrow> bool" where
  "completion n b g g' \<longleftrightarrow> keeps_givens n g g' \<and> solved n b g'"

text \<open>Counting the events of a trace, and the positions it wrote.\<close>

fun is_call :: "event \<Rightarrow> bool" where
  "is_call (Call r c) = True"
| "is_call e = False"

fun is_place :: "event \<Rightarrow> bool" where
  "is_place (Place r c v) = True"
| "is_place e = False"

fun is_write :: "event \<Rightarrow> bool" where
  "is_write (Call r c) = False"
| "is_write e = True"

fun written :: "event \<Rightarrow> (nat \<times> nat) option" where
  "written (Call r c) = None"
| "written (Place r c v) = Some (r, c)"
| "written (Undo r c) = Some (r, c)"

definition calls :: "event list \<Rightarrow> nat" where
  "calls es = length (filter is_call es)"

definition placements :: "event list \<Rightarrow> nat" where
  "placements es = length (filter is_place es)"

text \<open>
  What one call does to the board: \<open>effect s s' ok\<close> says that the cells that were not
  empty in \<open>s\<close> are the same in \<open>s'\<close>, that every write added to the trace is at a
  position that was empty in \<open>s\<close>, and that the board of \<open>s'\<close> is the board of \<open>s\<close> when
  the call reports failure.
\<close>

definition effect :: "sudoku \<Rightarrow> sudoku \<Rightarrow> bool \<Rightarrow> bool" where
  "effect s s' ok \<longleftrightarrow>
     (\<forall>p. cell_at (board s) p \<noteq> 0 \<longrightarrow> cell_at (board s') p = cell_at (board s) p) \<and>
     (\<exists>es. trace s' = trace s @ es \<and>
        (\<forall>e \<in> set es. \<forall>p. written e = Some p \<longrightarrow> cell_at (board s) p = 0)) \<and>
     (\<not> ok \<longrightarrow> board s' = board s)"

text \<open>
  \<open>new_events s s'\<close>: what a pass from \<open>s\<close> to \<open>s'\<close> added to the trace.
  \<open>place_then_call\<close>: every placement in a trace is immediately followed by a call.
  \<open>final\<close>: the state a returning run ends in.
\<close>

definition new_events :: "sudoku \<Rightarrow> sudoku \<Rightarrow> event list" where
  "new_events s s' = drop (length (trace s)) (trace s')"

fun place_then_call :: "event list \<Rightarrow> bool" where
  "place_then_call [] = True"
| "place_then_call [e] = (\<not> is_place e)"
| "place_then_call (e # f # es) = ((\<not> is_place e \<or> is_call f) \<and> place_then_call (f # es))"

definition final :: "error + (bool \<times> sudoku) \<Rightarrow> sudoku" where
  "final r = snd (projr r)"

text \<open>
  \<open>at_or_after row col p\<close>: in the order of the search (rows outermost), the position
  \<open>p\<close> is \<open>(row, col)\<close> or comes after it.
\<close>

definition at_or_after :: "nat \<Rightarrow> nat \<Rightarrow> nat \<times> nat \<Rightarrow> bool" where
  "at_or_after row col p \<longleftrightarrow> row < fst p \<or> (row = fst p \<and> col \<le> snd p)"

text \<open>
  \<open>same_grid s t\<close>: the two states hold the same grid.
  \<open>filled_before n g k\<close>: the first \<open>k\<close> cells of the grid, rows outermost, are not empty.
\<close>

definition same_grid :: "sudoku \<Rightarrow> sudoku \<Rightarrow> bool" where
  "same_grid s t \<longleftrightarrow> sizeN t = sizeN s \<and> boxSize t = boxSize s \<and> board t = board s"

definition filled_before :: "nat \<Rightarrow> grid \<Rightarrow> nat \<Rightarrow> bool" where
  "filled_before n g k \<longleftrightarrow> (\<forall>i \<in> {0..<min k (n * n)}. cell_at g (allCells n ! i) \<noteq> 0)"


definition constructed :: "error + ((strategy option \<times> sudoku) \<times> 'r) \<Rightarrow> sudoku" where
  "constructed x = snd (fst (projr x))"

text \<open>
  \<open>seeded_within n g i\<close>: every cell of the grid that is not empty lies in the first
  \<open>i\<close> rows and the first \<open>i\<close> columns.
\<close>

definition seeded_within :: "nat \<Rightarrow> grid \<Rightarrow> nat \<Rightarrow> bool" where
  "seeded_within n g i \<longleftrightarrow>
     (\<forall>p \<in> set (allCells n). cell_at g p \<noteq> 0 \<longrightarrow> fst p < i \<and> snd p < i)"

section \<open>Example grids\<close>

text \<open>
  \<open>solved4\<close> is a solved grid of size 4, \<open>puzzle4\<close> is the same grid with five cells
  emptied, \<open>clash4\<close> has one empty cell and the value 4 twice in its last row and its
  last column, and \<open>stuck4\<close> is a valid partial state that has no completion (the
  solver places and undoes two digits on it).
\<close>

definition grid_state :: "nat \<Rightarrow> nat \<Rightarrow> grid \<Rightarrow> sudoku" where
  "grid_state n b g = \<lparr>sizeN = n, boxSize = b, board = g, solution = [], steps = 0, trace = []\<rparr>"

definition solved4 :: sudoku where
  "solved4 = grid_state 4 2 [[1, 2, 3, 4], [3, 4, 1, 2], [2, 1, 4, 3], [4, 3, 2, 1]]"

definition puzzle4 :: sudoku where
  "puzzle4 = grid_state 4 2 [[1, 0, 3, 4], [3, 4, 0, 2], [0, 1, 4, 3], [4, 3, 0, 0]]"

definition clash4 :: sudoku where
  "clash4 = grid_state 4 2 [[0, 2, 3, 4], [3, 4, 1, 2], [2, 1, 4, 3], [4, 3, 2, 4]]"

definition stuck4 :: sudoku where
  "stuck4 = grid_state 4 2 [[0, 2, 3, 0], [0, 0, 0, 4], [0, 0, 0, 1], [0, 0, 0, 0]]"

text \<open>
  \<open>seed4\<close> is a grid of size 4 whose two diagonal boxes are filled, \<open>solved9\<close> is a
  solved grid of size 9, and \<open>rev_draw\<close> is a fair shuffle that does not use its
  generator state: it reverses the vector.
\<close>

definition seed4 :: sudoku where
  "seed4 = grid_state 4 2 [[4, 3, 0, 0], [2, 1, 0, 0], [0, 0, 4, 3], [0, 0, 2, 1]]"


definition rev_draw :: "nat \<Rightarrow> unit \<Rightarrow> nat list \<times> unit" where
  "rev_draw len rng = (rev [0..<len], rng)"

section \<open>Basic facts\<close>

lemma map_length_set_cell [simp]: "map length (set_cell g r c v) = map length g"
  by (cases "r < length g") (simp_all add: set_cell_def map_update list_update_same_conv not_less list_update_beyond)

lemma length_set_cell [simp]: "length (set_cell g r c v) = length g"
  by (simp add: set_cell_def)

lemma nth_set_cell:
  "r < length g \<Longrightarrow> c < length (g ! r) \<Longrightarrow>
   set_cell g r c v ! i ! j = (if i = r \<and> j = c then v else g ! i ! j)"
  by (simp add: set_cell_def nth_list_update)

lemma nth_set_cell_other:
  "(i, j) \<noteq> (r, c) \<Longrightarrow> set_cell g r c v ! i ! j = g ! i ! j"
  by (cases "r < length g") (auto simp add: set_cell_def nth_list_update not_less list_update_beyond)

lemma set_cell_twice [simp]: "set_cell (set_cell g r c v) r c w = set_cell g r c w"
  by (cases "r < length g") (simp_all add: set_cell_def not_less list_update_beyond)

lemma set_cell_same: "g ! r ! c = v \<Longrightarrow> set_cell g r c v = g"
  by (auto simp add: set_cell_def list_update_same_conv)

lemma enter_simps [simp]:
  "sizeN (enter s r c) = sizeN s" "boxSize (enter s r c) = boxSize s"
  "board (enter s r c) = board s" "solution (enter s r c) = solution s"
  "steps (enter s r c) = steps s + 1" "trace (enter s r c) = trace s @ [Call r c]"
  by (simp_all add: enter_def)

lemma place_simps [simp]:
  "sizeN (place s r c v) = sizeN s" "boxSize (place s r c v) = boxSize s"
  "board (place s r c v) = set_cell (board s) r c v" "solution (place s r c v) = solution s"
  "steps (place s r c v) = steps s" "trace (place s r c v) = trace s @ [Place r c v]"
  by (simp_all add: place_def)

lemma undo_simps [simp]:
  "sizeN (undo s r c) = sizeN s" "boxSize (undo s r c) = boxSize s"
  "board (undo s r c) = set_cell (board s) r c 0" "solution (undo s r c) = solution s"
  "steps (undo s r c) = steps s" "trace (undo s r c) = trace s @ [Undo r c]"
  by (simp_all add: undo_def)

lemma isValidPlacement_enter [simp]:
  "isValidPlacement (enter s r c) = isValidPlacement s"
  by (intro ext) (simp add: isValidPlacement_def)

lemma backtrack_cases [consumes 1, case_names wrap finish skip branch]:
  assumes "backtrack (Suc k) row col s = Inr (ok, s')"
  obtains
    "col = sizeN s" "backtrack k (row + 1) 0 (enter s row col) = Inr (ok, s')"
  | "col \<noteq> sizeN s" "row = sizeN s" "ok" "s' = enter s row col"
  | v where "col \<noteq> sizeN s" "row \<noteq> sizeN s" "cell (board s) row col = Some v" "v \<noteq> 0"
      "backtrack k row (col + 1) (enter s row col) = Inr (ok, s')"
  | "col \<noteq> sizeN s" "row \<noteq> sizeN s" "cell (board s) row col = Some 0"
      "try_nums k row col 1 (enter s row col) = Inr (ok, s')"
  using assms by (auto simp: Let_def split: if_splits option.splits)

lemma try_nums_cases [consumes 1, case_names exhausted invalid kept undone]:
  assumes "try_nums (Suc k) row col num s = Inr (ok, s')"
  obtains
    "sizeN s < num" "\<not> ok" "s' = s"
  | "num \<le> sizeN s" "isValidPlacement s row col (int num) = Inr False"
      "try_nums k row col (num + 1) s = Inr (ok, s')"
  | "num \<le> sizeN s" "isValidPlacement s row col (int num) = Inr True"
      "backtrack k row (col + 1) (place s row col (int num)) = Inr (True, s')" "ok"
  | t where "num \<le> sizeN s" "isValidPlacement s row col (int num) = Inr True"
      "backtrack k row (col + 1) (place s row col (int num)) = Inr (False, t)"
      "try_nums k row col (num + 1) (undo t row col) = Inr (ok, s')"
  using assms by (auto split: if_splits sum.splits bool.splits)

lemma backtrack_rel:
  assumes refl: "\<And>s. R s s"
    and trans: "\<And>s t u. R s t \<Longrightarrow> R t u \<Longrightarrow> R s u"
    and enter: "\<And>s r c. R s (enter s r c)"
    and place: "\<And>s r c v. R s (place s r c v)"
    and undo: "\<And>s r c. R s (undo s r c)"
  shows "backtrack k row col s = Inr (ok, s') \<Longrightarrow> R s s'"
    and "try_nums k row col num s = Inr (ok, s') \<Longrightarrow> R s s'"
proof (induction k arbitrary: row col num s ok s' and row col num s ok s')
  case 0
  { case 1 then show ?case by simp }
  { case 2 then show ?case by simp }
next
  case (Suc k)
  { case 1
    then show ?case
    proof (cases rule: backtrack_cases)
      case wrap
      then show ?thesis using Suc.IH(1) trans enter by blast
    next
      case finish
      then show ?thesis using enter by simp
    next
      case (skip v)
      then show ?thesis using Suc.IH(1) trans enter by blast
    next
      case branch
      then show ?thesis using Suc.IH(2) trans enter by blast
    qed }
  { case 2
    then show ?case
    proof (cases rule: try_nums_cases)
      case exhausted
      then show ?thesis using refl by simp
    next
      case invalid
      then show ?thesis using Suc.IH(2) by blast
    next
      case kept
      then show ?thesis using Suc.IH(1) trans place by blast
    next
      case (undone t)
      have "R s t" using undone(3) Suc.IH(1) trans place by blast
      moreover have "R t s'" using undone(4) Suc.IH(2) trans undo by blast
      ultimately show ?thesis using trans by blast
    qed }
qed

lemma calls_simps [simp]:
  "calls [] = 0" "calls (es @ fs) = calls es + calls fs"
  "calls [Call r c] = 1" "calls [Place r c v] = 0" "calls [Undo r c] = 0"
  by (simp_all add: calls_def)

lemma placements_simps [simp]:
  "placements [] = 0" "placements (es @ fs) = placements es + placements fs"
  "placements [Call r c] = 0" "placements [Place r c v] = 1" "placements [Undo r c] = 0"
  by (simp_all add: placements_def)

lemma backtrack_fuel_mono:
  "backtrack k row col s = Inr r \<Longrightarrow> k \<le> k' \<Longrightarrow> backtrack k' row col s = Inr r"
  "try_nums k row col num s = Inr r \<Longrightarrow> k \<le> k' \<Longrightarrow> try_nums k' row col num s = Inr r"
proof (induction k arbitrary: row col num s r k' and row col num s r k')
  case 0
  { case 1 then show ?case by simp }
  { case 2 then show ?case by simp }
next
  case (Suc k)
  { case 1
    obtain j where j: "k' = Suc j" "k \<le> j" using 1(2) by (cases k') auto
    obtain ok s' where r: "r = (ok, s')" by (cases r)
    from 1(1)[unfolded r] show ?case unfolding j r
    proof (cases rule: backtrack_cases)
      case wrap
      then show "backtrack (Suc j) row col s = Inr (ok, s')"
        using Suc.IH(1)[OF wrap(2) j(2)] by simp
    next
      case finish
      then show "backtrack (Suc j) row col s = Inr (ok, s')" by simp
    next
      case (skip v)
      then show "backtrack (Suc j) row col s = Inr (ok, s')"
        using Suc.IH(1)[OF skip(5) j(2)] by simp
    next
      case branch
      then show "backtrack (Suc j) row col s = Inr (ok, s')"
        using Suc.IH(2)[OF branch(4) j(2)] by simp
    qed }
  { case 2
    obtain j where j: "k' = Suc j" "k \<le> j" using 2(2) by (cases k') auto
    obtain ok s' where r: "r = (ok, s')" by (cases r)
    from 2(1)[unfolded r] show ?case unfolding j r
    proof (cases rule: try_nums_cases)
      case exhausted
      then show "try_nums (Suc j) row col num s = Inr (ok, s')" by simp
    next
      case invalid
      then show "try_nums (Suc j) row col num s = Inr (ok, s')"
        using Suc.IH(2)[OF invalid(3) j(2)] by simp
    next
      case kept
      then show "try_nums (Suc j) row col num s = Inr (ok, s')"
        using Suc.IH(1)[OF kept(3) j(2)] by simp
    next
      case (undone t)
      then show "try_nums (Suc j) row col num s = Inr (ok, s')"
        using Suc.IH(1)[OF undone(3) j(2)] Suc.IH(2)[OF undone(4) j(2)] by simp
    qed }
qed

lemma backtrack_deterministic:
  assumes "backtrack k row col s = Inr r" "backtrack k' row col s = Inr r'"
  shows "r = r'"
proof -
  have "backtrack (max k k') row col s = Inr r" "backtrack (max k k') row col s = Inr r'"
    using assms backtrack_fuel_mono(1) by (meson max.cobounded1 max.cobounded2)+
  then show ?thesis by simp
qed

lemma backtrack_same_frame:
  "backtrack k row col s = Inr (ok, s') \<Longrightarrow> same_frame s s'"
  "try_nums k row col num s = Inr (ok, s') \<Longrightarrow> same_frame s s'"
  by (rule backtrack_rel[where R = same_frame]; simp add: same_frame_def)+

lemma same_frame_well_formed: "same_frame s t \<Longrightarrow> well_formed s \<Longrightarrow> well_formed t"
  by (auto simp: same_frame_def well_formed_def)


lemma none_equal_in_range:
  "\<forall>(r, c) \<in> set ps. r < length g \<and> c < length (g ! r) \<Longrightarrow>
   none_equal g num ps = Inr (num \<notin> set (unit_values g ps))"
  by (induction ps) (auto simp: cell_def unit_values_def cell_at_def)

lemma box_bound:
  fixes row b i :: nat
  assumes "row < b * b" "i < b"
  shows "row - row mod b + i < b * b"
proof -
  have "0 < b" using assms(2) by simp
  then have q: "row div b < b" using assms(1) by (simp add: div_less_iff_less_mult)
  have "row - row mod b = b * (row div b)" by (simp add: minus_mod_eq_mult_div)
  moreover have "b * (row div b) + i < b * (row div b + 1)" using assms(2) by simp
  moreover have "b * (row div b + 1) \<le> b * b" using q by (intro mult_le_mono2) simp
  ultimately show ?thesis by linarith
qed

lemma well_formed_lengths:
  assumes "well_formed s"
  shows "length (board s) = sizeN s" and "r < sizeN s \<Longrightarrow> length (board s ! r) = sizeN s"
proof -
  have m: "map length (board s) = replicate (sizeN s) (sizeN s)"
    using assms by (simp add: well_formed_def)
  from arg_cong[OF m, of length] show l: "length (board s) = sizeN s" by simp
  assume "r < sizeN s"
  with l have "length (board s ! r) = map length (board s) ! r" by simp
  also have "\<dots> = sizeN s" using \<open>r < sizeN s\<close> by (simp add: m)
  finally show "length (board s ! r) = sizeN s" .
qed

lemma isValidInRow_wf:
  assumes "well_formed s" "row < sizeN s"
  shows "isValidInRow (board s) row num =
           Inr (num \<notin> set (unit_values (board s) (row_positions (sizeN s) row)))"
proof -
  have "unit_values (board s) (row_positions (sizeN s) row) = board s ! row"
    using well_formed_lengths[OF assms(1)] assms(2)
    by (intro nth_equalityI) (simp_all add: unit_values_def row_positions_def cell_at_def)
  then show ?thesis
    using well_formed_lengths[OF assms(1)] assms(2) by (simp add: isValidInRow_def)
qed

lemma isValidInColumn_wf:
  assumes "well_formed s" "col < sizeN s"
  shows "isValidInColumn (sizeN s) (board s) col num =
           Inr (num \<notin> set (unit_values (board s) (col_positions (sizeN s) col)))"
  unfolding isValidInColumn_def col_positions_def
  using well_formed_lengths[OF assms(1)] assms(2)
  by (intro none_equal_in_range) auto

lemma isValidInBox_wf:
  assumes "well_formed s" "row < sizeN s" "col < sizeN s"
  shows "isValidInBox (boxSize s) (board s) row col num =
     Inr (num \<notin> set (unit_values (board s)
                        (box_positions (boxSize s) (row - row mod boxSize s)
                                       (col - col mod boxSize s))))"
proof -
  let ?b = "boxSize s"
  have b: "0 < ?b" "sizeN s = ?b * ?b"
    using assms(1) by (auto simp: well_formed_def)
  have "\<forall>(r, c) \<in> set (box_positions ?b (row - row mod ?b) (col - col mod ?b)).
               r < length (board s) \<and> c < length (board s ! r)"
    using box_bound[of row ?b] box_bound[of col ?b] assms(2,3) b
      well_formed_lengths[OF assms(1)]
    by (auto simp: box_positions_def)
  from none_equal_in_range[OF this] show ?thesis
    using b(1) by (simp add: isValidInBox_def Let_def box_positions_def)
qed

lemma isValidPlacement_wf:
  assumes "well_formed s" "row < sizeN s" "col < sizeN s"
  shows "isValidPlacement s row col num =
     Inr (num \<notin> set (unit_values (board s) (row_positions (sizeN s) row)) \<and>
          num \<notin> set (unit_values (board s) (col_positions (sizeN s) col)) \<and>
          num \<notin> set (unit_values (board s)
                       (box_positions (boxSize s) (row - row mod boxSize s)
                                      (col - col mod boxSize s))))"
  using assms
  by (simp add: isValidPlacement_def isValidInRow_wf isValidInColumn_wf isValidInBox_wf
                and_then_def split: bool.splits)

lemma isValidPlacementOn_eq:
  "isValidPlacementOn (sizeN s) (boxSize s) (board s) = isValidPlacement s"
  by (intro ext) (simp add: isValidPlacementOn_def isValidPlacement_def)

lemma cell_Some_iff:
  "cell g r c = Some v \<longleftrightarrow> r < length g \<and> c < length (g ! r) \<and> g ! r ! c = v"
  by (auto simp: cell_def)

lemma cell_at_set_cell_other: "p \<noteq> (r, c) \<Longrightarrow> cell_at (set_cell g r c v) p = cell_at g p"
  by (cases p) (simp add: cell_at_def nth_set_cell_other)

lemma cell_at_set_cell_same:
  "r < length g \<Longrightarrow> c < length (g ! r) \<Longrightarrow> cell_at (set_cell g r c v) (r, c) = v"
  by (simp add: cell_at_def nth_set_cell)

lemma cell_same_frame:
  assumes "map length g' = map length g"
  shows "(r < length g' \<and> c < length (g' ! r)) = (r < length g \<and> c < length (g ! r))"
proof -
  have l: "length g' = length g" using arg_cong[OF assms, of length] by simp
  have "r < length g \<Longrightarrow> length (g' ! r) = length (g ! r)"
    using arg_cong[OF assms, of "\<lambda>xs. xs ! r"] l by simp
  with l show ?thesis by auto
qed

lemma set_cell_restore:
  assumes "cell g r c = Some 0"
  shows "set_cell (set_cell g r c v) r c 0 = g"
  using assms by (simp add: cell_Some_iff set_cell_same)

lemma effect_enter:
  assumes "effect (enter s r c) s' ok"
  shows "effect s s' ok"
proof -
  from assms obtain es where es: "trace s' = trace s @ Call r c # es"
    "\<forall>e \<in> set es. \<forall>p. written e = Some p \<longrightarrow> cell_at (board s) p = 0"
    by (auto simp: effect_def)
  have "\<forall>e \<in> set (Call r c # es). \<forall>p. written e = Some p \<longrightarrow> cell_at (board s) p = 0"
    using es(2) by simp
  with es(1) assms show ?thesis unfolding effect_def by (metis enter_simps(3))
qed

lemma effect_kept:
  assumes z: "cell (board s) row col = Some 0" and v: "v \<noteq> 0"
    and e: "effect (place s row col v) s' True"
  shows "effect s s' True"
proof -
  have rng: "row < length (board s)" "col < length (board s ! row)"
    and zero: "cell_at (board s) (row, col) = 0"
    using z by (auto simp: cell_Some_iff cell_at_def)
  have sub: "cell_at (board (place s row col v)) p = 0 \<Longrightarrow> cell_at (board s) p = 0" for p
    using rng v by (cases "p = (row, col)") (simp_all add: cell_at_set_cell_same cell_at_set_cell_other)
  have keep: "cell_at (board s) p \<noteq> 0 \<Longrightarrow> cell_at (board (place s row col v)) p = cell_at (board s) p" for p
    using zero by (cases "p = (row, col)") (simp_all add: cell_at_set_cell_other)
  from e obtain es where es: "trace s' = trace s @ Place row col v # es"
    "\<forall>e \<in> set es. \<forall>p. written e = Some p \<longrightarrow> cell_at (board (place s row col v)) p = 0"
    by (auto simp: effect_def)
  have w: "\<forall>e \<in> set (Place row col v # es). \<forall>p. written e = Some p \<longrightarrow> cell_at (board s) p = 0"
    using es(2) sub zero by auto
  have "\<forall>p. cell_at (board s) p \<noteq> 0 \<longrightarrow> cell_at (board s') p = cell_at (board s) p"
    using e keep unfolding effect_def by metis
  with es(1) w show ?thesis unfolding effect_def by blast
qed

lemma effect_undone:
  assumes z: "cell (board s) row col = Some 0" and v: "v \<noteq> 0"
    and e1: "effect (place s row col v) t False"
    and e2: "effect (undo t row col) s' ok"
  shows "effect s s' ok" and "board (undo t row col) = board s"
proof -
  have zero: "cell_at (board s) (row, col) = 0"
    using z by (auto simp: cell_Some_iff cell_at_def)
  have bt: "board t = set_cell (board s) row col v" using e1 by (simp add: effect_def)
  then show bu: "board (undo t row col) = board s" using set_cell_restore[OF z] by simp
  from e1 obtain es where es: "trace t = trace s @ Place row col v # es"
    "\<forall>e \<in> set es. \<forall>p. written e = Some p \<longrightarrow> cell_at (board (place s row col v)) p = 0"
    by (auto simp: effect_def)
  have rng: "row < length (board s)" "col < length (board s ! row)"
    using z by (auto simp: cell_Some_iff)
  have sub: "cell_at (board (place s row col v)) p = 0 \<Longrightarrow> cell_at (board s) p = 0" for p
    using rng v by (cases "p = (row, col)") (simp_all add: cell_at_set_cell_same cell_at_set_cell_other)
  from e2 obtain fs where fs: "trace s' = trace t @ Undo row col # fs"
    "\<forall>e \<in> set fs. \<forall>p. written e = Some p \<longrightarrow> cell_at (board s) p = 0"
    unfolding effect_def bu by auto
  have w: "\<forall>e \<in> set (Place row col v # es @ Undo row col # fs).
             \<forall>p. written e = Some p \<longrightarrow> cell_at (board s) p = 0"
    using es(2) fs(2) sub zero by auto
  have tr: "trace s' = trace s @ (Place row col v # es @ Undo row col # fs)"
    using es(1) fs(1) by simp
  have "(\<forall>p. cell_at (board s) p \<noteq> 0 \<longrightarrow> cell_at (board s') p = cell_at (board s) p) \<and>
        (\<not> ok \<longrightarrow> board s' = board s)"
    using e2 unfolding effect_def bu by blast
  with tr w show "effect s s' ok" unfolding effect_def by blast
qed

lemma effect_refl: "effect s s ok"
  unfolding effect_def by (auto intro: exI[of _ "[]"])

lemma backtrack_effect:
  "backtrack k row col s = Inr (ok, s') \<Longrightarrow> effect s s' ok"
  "try_nums k row col num s = Inr (ok, s') \<Longrightarrow> cell (board s) row col = Some 0 \<Longrightarrow>
     0 < num \<Longrightarrow> effect s s' ok"
proof (induction k arbitrary: row col num s ok s' and row col num s ok s')
  case 0
  { case 1 then show ?case by simp }
  { case 2 then show ?case by simp }
next
  case (Suc k)
  { case 1
    then show ?case
    proof (cases rule: backtrack_cases)
      case wrap
      then show ?thesis using Suc.IH(1) effect_enter by blast
    next
      case finish
      then show ?thesis using effect_enter[OF effect_refl] by simp
    next
      case (skip v)
      then show ?thesis using Suc.IH(1) effect_enter by blast
    next
      case branch
      have "effect (enter s row col) s' ok"
        using Suc.IH(2)[OF branch(4)] branch(3) by simp
      then show ?thesis by (rule effect_enter)
    qed }
  { case 2
    note z = 2(2) and pos = 2(3)
    from 2(1) show ?case
    proof (cases rule: try_nums_cases)
      case exhausted
      then show ?thesis by (simp add: effect_refl)
    next
      case invalid
      then show ?thesis using Suc.IH(2) z pos by simp
    next
      case kept
      have v: "int num \<noteq> 0" using pos by simp
      have "effect (place s row col (int num)) s' True" using Suc.IH(1)[OF kept(3)] .
      from effect_kept[OF z v this] show ?thesis using kept(4) by simp
    next
      case (undone t)
      have e1: "effect (place s row col (int num)) t False" using Suc.IH(1)[OF undone(3)] .
      have v: "int num \<noteq> 0" using pos by simp
      have bt: "board t = set_cell (board s) row col (int num)" using e1 by (simp add: effect_def)
      have bu: "board (undo t row col) = board s" using bt set_cell_restore[OF z] by simp
      have "effect (undo t row col) s' ok"
        using Suc.IH(2)[OF undone(4)] z bu by simp
      from effect_undone(1)[OF z v e1 this] show ?thesis .
    qed }
qed

lemma well_formed_enter [simp]: "well_formed (enter s r c) = well_formed s"
  by (simp add: well_formed_def)

lemma well_formed_place [simp]: "well_formed (place s r c v) = well_formed s"
  by (simp add: well_formed_def)

lemma well_formed_undo [simp]: "well_formed (undo s r c) = well_formed s"
  by (simp add: well_formed_def)

lemma backtrack_well_formed:
  "backtrack k row col s = Inr (ok, s') \<Longrightarrow> well_formed s \<Longrightarrow> well_formed s' \<and> sizeN s' = sizeN s"
  "try_nums k row col num s = Inr (ok, s') \<Longrightarrow> well_formed s \<Longrightarrow> well_formed s' \<and> sizeN s' = sizeN s"
  using backtrack_same_frame same_frame_well_formed by (auto simp: same_frame_def)

lemma well_formed_cell:
  assumes "well_formed s" "row < sizeN s" "col < sizeN s"
  shows "cell (board s) row col = Some (board s ! row ! col)"
  using well_formed_lengths[OF assms(1)] assms(2,3) by (simp add: cell_def)

lemma try_nums_terminates:
  assumes bt: "\<And>t. well_formed t \<Longrightarrow> sizeN t = n \<Longrightarrow> \<exists>k r. backtrack k row (col + 1) t = Inr r"
    and "row < n" "col < n"
  shows "well_formed s \<Longrightarrow> sizeN s = n \<Longrightarrow> \<exists>k r. try_nums k row col num s = Inr r"
proof (induction d \<equiv> "Suc n - num" arbitrary: num s)
  case 0
  then have "try_nums (Suc 0) row col num s = Inr (False, s)" by simp
  then show ?case by blast
next
  case (Suc d)
  then have le: "num \<le> sizeN s" and d: "d = Suc n - (num + 1)" by auto
  obtain v where v: "isValidPlacement s row col (int num) = Inr v"
    using isValidPlacement_wf[of s row col] Suc.prems assms(2,3) by auto
  show ?case
  proof (cases v)
    case False
    from Suc.hyps(1)[OF d Suc.prems] obtain k r where
      "try_nums k row col (num + 1) s = Inr r" by blast
    then have "try_nums (Suc k) row col num s = Inr r" using le v False by simp
    then show ?thesis by blast
  next
    case True
    from bt[of "place s row col (int num)"] Suc.prems obtain k1 ok t where
      k1: "backtrack k1 row (col + 1) (place s row col (int num)) = Inr (ok, t)"
      by (metis place_simps(1) surj_pair well_formed_place)
    show ?thesis
    proof (cases ok)
      case True
      then have "try_nums (Suc k1) row col num s = Inr (True, t)"
        using le v \<open>v\<close> k1 by simp
      then show ?thesis by blast
    next
      case False
      have "well_formed (undo t row col)" "sizeN (undo t row col) = n"
        using backtrack_well_formed(1)[OF k1] Suc.prems by simp_all
      from Suc.hyps(1)[OF d this] obtain k2 r where
        k2: "try_nums k2 row col (num + 1) (undo t row col) = Inr r" by blast
      have "backtrack (max k1 k2) row (col + 1) (place s row col (int num)) = Inr (False, t)"
        using backtrack_fuel_mono(1)[OF k1] False by simp
      moreover have "try_nums (max k1 k2) row col (num + 1) (undo t row col) = Inr r"
        using backtrack_fuel_mono(2)[OF k2] by simp
      ultimately have "try_nums (Suc (max k1 k2)) row col num s = Inr r"
        using le v \<open>v\<close> by simp
      then show ?thesis by blast
    qed
  qed
qed

lemma backtrack_terminates_row:
  assumes next_row: "\<And>t. well_formed t \<Longrightarrow> sizeN t = n \<Longrightarrow> \<exists>k r. backtrack k (row + 1) 0 t = Inr r"
    and "row < n"
  shows "col \<le> n \<Longrightarrow> well_formed s \<Longrightarrow> sizeN s = n \<Longrightarrow> \<exists>k r. backtrack k row col s = Inr r"
proof (induction d \<equiv> "n - col" arbitrary: col s)
  case 0
  then have c: "col = sizeN s" by simp
  from next_row[of "enter s row col"] 0 obtain k r where
    "backtrack k (row + 1) 0 (enter s row col) = Inr r" by auto
  then have "backtrack (Suc k) row col s = Inr r" using c by (simp add: Let_def)
  then show ?case by blast
next
  case (Suc d)
  then have c: "col < n" "col \<noteq> sizeN s" "row \<noteq> sizeN s" and d: "d = n - (col + 1)"
    using assms(2) by auto
  have IH: "\<exists>k r. backtrack k row (col + 1) t = Inr r" if "well_formed t" "sizeN t = n" for t
    using Suc.hyps(1)[OF d _ that] c(1) by simp
  have rd: "cell (board s) row col = Some (board s ! row ! col)"
    using well_formed_cell Suc.prems assms(2) c(1) by simp
  show ?case
  proof (cases "board s ! row ! col = 0")
    case False
    from IH[of "enter s row col"] Suc.prems obtain k r where
      "backtrack k row (col + 1) (enter s row col) = Inr r" by auto
    then have "backtrack (Suc k) row col s = Inr r" using c rd False by (simp add: Let_def)
    then show ?thesis by blast
  next
    case True
    from try_nums_terminates[OF IH assms(2) c(1), of "enter s row col" 1] Suc.prems
    obtain k r where "try_nums k row col 1 (enter s row col) = Inr r" by auto
    then have "backtrack (Suc k) row col s = Inr r" using c rd True by (simp add: Let_def)
    then show ?thesis by blast
  qed
qed

lemma backtrack_terminates_row_start:
  "row \<le> n \<Longrightarrow> well_formed s \<Longrightarrow> sizeN s = n \<Longrightarrow> \<exists>k r. backtrack k row 0 s = Inr r"
proof (induction d \<equiv> "n - row" arbitrary: row s)
  case 0
  then have "row = sizeN s" "0 \<noteq> sizeN s" by (auto simp: well_formed_def)
  then have "backtrack (Suc 0) row 0 s = Inr (True, enter s row 0)" by (simp add: Let_def)
  then show ?case by blast
next
  case (Suc d)
  then have r: "row < n" "row + 1 \<le> n" and d: "d = n - (row + 1)" by auto
  have "\<exists>k r. backtrack k (row + 1) 0 t = Inr r" if "well_formed t" "sizeN t = n" for t
    using Suc.hyps(1)[OF d r(2) that] .
  from backtrack_terminates_row[OF this r(1), of 0 s] Suc.prems show ?case by simp
qed

lemma backtrack_terminates:
  assumes "well_formed s" "row < sizeN s" "col \<le> sizeN s"
  shows "\<exists>k r. backtrack k row col s = Inr r"
proof -
  have "\<exists>k r. backtrack k (row + 1) 0 t = Inr r" if "well_formed t" "sizeN t = sizeN s" for t
    using backtrack_terminates_row_start[of "row + 1" "sizeN s" t] that assms(2) by simp
  from backtrack_terminates_row[OF this assms(2,3,1)] show ?thesis by simp
qed

lemma bruteForceSolver_terminates:
  assumes "well_formed s"
  shows "\<exists>k ok s'. bruteForceSolver k s = Inr (ok, s')"
  using backtrack_terminates_row_start[of 0 "sizeN s" s] assms
  by (auto simp: bruteForceSolver_def)

lemma new_events_append: "trace s' = trace s @ es \<Longrightarrow> new_events s s' = es"
  by (simp add: new_events_def)



lemma place_then_call_Place:
  "es \<noteq> [] \<Longrightarrow> is_call (hd es) \<Longrightarrow> place_then_call es \<Longrightarrow> place_then_call (Place r c v # es)"
  by (cases es) auto


lemma backtrack_full:
  assumes "backtrack k row col s = Inr (ok, s')" "well_formed s" "full (sizeN s) (board s)"
  shows "ok \<and> board s' = board s \<and> (\<exists>es. trace s' = trace s @ es \<and> filter is_write es = [])"
  using assms
proof (induction k arbitrary: row col s)
  case 0
  then show ?case by simp
next
  case (Suc k)
  from Suc.prems(1) show ?case
  proof (cases rule: backtrack_cases)
    case wrap
    from Suc.IH[OF wrap(2)] Suc.prems(2,3) show ?thesis by auto
  next
    case finish
    then show ?thesis by simp
  next
    case (skip v)
    from Suc.IH[OF skip(5)] Suc.prems(2,3) show ?thesis by auto
  next
    case branch
    have "row < sizeN s" "col < sizeN s" "board s ! row ! col = 0"
      using branch(3) well_formed_lengths[OF Suc.prems(2)] by (auto simp: cell_Some_iff)
    then have "(row, col) \<in> set (allCells (sizeN s))" "cell_at (board s) (row, col) = 0"
      by (simp_all add: allCells_def cell_at_def)
    with Suc.prems(3) show ?thesis by (auto simp: full_def)
  qed
qed

section \<open>Units, valid states and solved grids\<close>

subsection \<open>Rows, columns and boxes\<close>

lemma set_allCells [simp]: "set (allCells n) = {0..<n} \<times> {0..<n}"
  by (simp add: allCells_def)

lemma row_positions_facts:
  "distinct (row_positions n r)" "length (row_positions n r) = n"
  "set (row_positions n r) = {r} \<times> {0..<n}"
  by (auto simp: row_positions_def distinct_map inj_on_def)

lemma col_positions_facts:
  "distinct (col_positions n c)" "length (col_positions n c) = n"
  "set (col_positions n c) = {0..<n} \<times> {c}"
  by (auto simp: col_positions_def distinct_map inj_on_def)

lemma box_positions_facts:
  "distinct (box_positions b br bc)" "length (box_positions b br bc) = b * b"
  "set (box_positions b br bc) = {br..<br + b} \<times> {bc..<bc + b}"
proof -
  show "distinct (box_positions b br bc)"
    by (auto simp: box_positions_def distinct_map distinct_product inj_on_def)
  show "length (box_positions b br bc) = b * b"
    by (simp add: box_positions_def)
  show "set (box_positions b br bc) = {br..<br + b} \<times> {bc..<bc + b}"
  proof (intro set_eqI iffI)
    fix p assume "p \<in> set (box_positions b br bc)"
    then show "p \<in> {br..<br + b} \<times> {bc..<bc + b}" by (auto simp: box_positions_def)
  next
    fix p assume p: "p \<in> {br..<br + b} \<times> {bc..<bc + b}"
    then have "(fst p - br, snd p - bc) \<in> set (List.product [0..<b] [0..<b])" by auto
    moreover have "p = (\<lambda>(i, j). (br + i, bc + j)) (fst p - br, snd p - bc)"
      using p by auto
    ultimately show "p \<in> set (box_positions b br bc)"
      unfolding box_positions_def set_map by (rule image_eqI[rotated])
  qed
qed

lemma all_units_cases:
  assumes "u \<in> set (all_units n b)"
  obtains r where "r < n" "u = row_positions n r"
  | c where "c < n" "u = col_positions n c"
  | bi bj where "bi < b" "bj < b" "u = box_positions b (bi * b) (bj * b)"
  using assms by (auto simp: all_units_def)

lemma all_units_intros:
  "r < n \<Longrightarrow> row_positions n r \<in> set (all_units n b)"
  "c < n \<Longrightarrow> col_positions n c \<in> set (all_units n b)"
  "bi < b \<Longrightarrow> bj < b \<Longrightarrow> box_positions b (bi * b) (bj * b) \<in> set (all_units n b)"
  by (auto simp: all_units_def)

lemma box_corner:
  fixes row b :: nat
  shows "row - row mod b = (row div b) * b"
  by (simp add: minus_mod_eq_mult_div)

lemma div_less_square:
  fixes row b :: nat
  assumes "row < b * b"
  shows "row div b < b"
proof -
  have "0 < b" using assms by (cases b) auto
  then show ?thesis using assms by (simp add: div_less_iff_less_mult)
qed

lemma box_index_le:
  fixes bi b i :: nat
  assumes "bi < b" "i < b"
  shows "bi * b + i < b * b"
proof -
  have "bi * b + i < (bi + 1) * b" using assms(2) by simp
  also have "\<dots> \<le> b * b" using assms(1) by (intro mult_le_mono1) simp
  finally show ?thesis .
qed

lemma all_units_facts:
  assumes "n = b * b" "u \<in> set (all_units n b)"
  shows "distinct u" "length u = n" "set u \<subseteq> set (allCells n)"
proof -
  from assms(2) show "distinct u"
    by (cases rule: all_units_cases)
       (simp_all add: row_positions_facts col_positions_facts box_positions_facts)
  from assms(2) show "length u = n"
    by (cases rule: all_units_cases)
       (simp_all add: row_positions_facts col_positions_facts box_positions_facts assms(1))
  from assms(2) show "set u \<subseteq> set (allCells n)"
  proof (cases rule: all_units_cases)
    case (3 bi bj)
    have "bi * b + b \<le> n" "bj * b + b \<le> n"
      using 3(1,2) assms(1) by (metis Suc_leI mult_Suc mult_le_mono1 add.commute)+
    then show ?thesis using 3(3) by (auto simp: box_positions_facts)
  qed (auto simp: row_positions_facts col_positions_facts)
qed

text \<open>The units through a position are its row, its column and its box.\<close>

lemma units_through:
  assumes "u \<in> set (all_units n b)" "(row, col) \<in> set u"
  shows "u = row_positions n row \<or> u = col_positions n col \<or>
         u = box_positions b (row - row mod b) (col - col mod b)"
  using assms(1)
proof (cases rule: all_units_cases)
  case (1 r)
  then show ?thesis using assms(2) by (auto simp: row_positions_facts)
next
  case (2 c)
  then show ?thesis using assms(2) by (auto simp: col_positions_facts)
next
  case (3 bi bj)
  from assms(2) 3(3) have r: "bi * b \<le> row" "row < bi * b + b" and c: "bj * b \<le> col" "col < bj * b + b"
    by (auto simp: box_positions_facts)
  have b: "0 < b" using 3(1) by simp
  have "row div b = bi"
    using r b by (metis add.commute div_nat_eqI mult.commute mult_Suc_right)
  moreover have "col div b = bj"
    using c b by (metis add.commute div_nat_eqI mult.commute mult_Suc_right)
  ultimately show ?thesis using 3(3) by (simp add: box_corner)
qed

lemma units_of_position:
  assumes "n = b * b" "row < n" "col < n"
  shows "row_positions n row \<in> set (all_units n b)"
    "col_positions n col \<in> set (all_units n b)"
    "box_positions b (row - row mod b) (col - col mod b) \<in> set (all_units n b)"
    "(row, col) \<in> set (row_positions n row)"
    "(row, col) \<in> set (col_positions n col)"
    "(row, col) \<in> set (box_positions b (row - row mod b) (col - col mod b))"
proof -
  have b: "0 < b" using assms(1,2) by (cases b) auto
  show "row_positions n row \<in> set (all_units n b)" "col_positions n col \<in> set (all_units n b)"
    using assms(2,3) by (simp_all add: all_units_intros)
  show "box_positions b (row - row mod b) (col - col mod b) \<in> set (all_units n b)"
    unfolding box_corner using assms div_less_square by (intro all_units_intros) auto
  show "(row, col) \<in> set (row_positions n row)" "(row, col) \<in> set (col_positions n col)"
    using assms(2,3) by (simp_all add: row_positions_facts col_positions_facts)
  have "row - row mod b \<le> row" "row < row - row mod b + b"
       "col - col mod b \<le> col" "col < col - col mod b + b"
    using b mod_less_divisor[OF b, of row] mod_less_divisor[OF b, of col]
      mod_less_eq_dividend[of row b] mod_less_eq_dividend[of col b] by linarith+
  then show "(row, col) \<in> set (box_positions b (row - row mod b) (col - col mod b))"
    by (simp add: box_positions_facts)
qed

subsection \<open>Counting in a unit\<close>

lemma distinct_count_list:
  "distinct xs \<Longrightarrow> count_list xs x = (if x \<in> set xs then 1 else 0)"
  by (induction xs) auto

lemma pigeonhole_count:
  assumes "distinct xs" "set xs \<subseteq> {1..int n}" "length xs = n" "v \<in> {1..int n}"
  shows "count_list xs v = 1"
proof -
  have "card (set xs) = card {1..int n}" using assms(1,3) by (simp add: distinct_card)
  with assms(2) have "set xs = {1..int n}" by (intro card_subset_eq) simp_all
  with assms(1,4) show ?thesis by (simp add: distinct_count_list)
qed

lemma count_one_each:
  assumes "\<forall>v \<in> {1..int n}. count_list xs v = 1" "length xs = n"
  shows "distinct xs" "set xs = {1..int n}"
proof -
  have sub: "{1..int n} \<subseteq> set xs"
  proof
    fix v assume "v \<in> {1..int n}"
    with assms(1) have "count_list xs v \<noteq> 0" by simp
    then show "v \<in> set xs" by (simp add: count_list_0_iff)
  qed
  have "card {1..int n} \<le> card (set xs)" using sub by (intro card_mono) simp_all
  moreover have "card (set xs) \<le> length xs" by (rule card_length)
  ultimately have c: "card (set xs) = n" using assms(2) by simp
  then show "distinct xs" using assms(2) by (intro card_distinct) simp
  from sub c show "set xs = {1..int n}" by (intro card_subset_eq[symmetric]) simp_all
qed

subsection \<open>Valid partial states and solved grids\<close>

lemma unit_values_set_cell_notin:
  "(r, c) \<notin> set ps \<Longrightarrow> unit_values (set_cell g r c v) ps = unit_values g ps"
  unfolding unit_values_def by (intro map_cong refl cell_at_set_cell_other) auto

lemma set_cell_out_of_range:
  "\<not> (r < length g \<and> c < length (g ! r)) \<Longrightarrow> set_cell g r c v = g"
  by (auto simp: set_cell_def list_update_beyond not_less)

lemma set_unit_values_set_cell:
  "set (unit_values (set_cell g r c v) ps) \<subseteq> insert v (set (unit_values g ps))"
proof
  fix x assume "x \<in> set (unit_values (set_cell g r c v) ps)"
  then obtain p where p: "p \<in> set ps" "x = cell_at (set_cell g r c v) p"
    by (auto simp: unit_values_def)
  show "x \<in> insert v (set (unit_values g ps))"
  proof (cases "p = (r, c)")
    case True
    show ?thesis
    proof (cases "r < length g \<and> c < length (g ! r)")
      case True
      then show ?thesis using p \<open>p = (r, c)\<close> by (simp add: cell_at_set_cell_same)
    next
      case False
      then show ?thesis using p by (auto simp: set_cell_out_of_range unit_values_def)
    qed
  next
    case False
    then show ?thesis using p by (auto simp: unit_values_def cell_at_set_cell_other)
  qed
qed

lemma distinct_nonzero_set_cell:
  assumes "distinct ps" "distinct (filter (\<lambda>x. x \<noteq> 0) (unit_values g ps))"
    and "(r, c) \<in> set ps \<Longrightarrow> v \<notin> set (unit_values g ps)"
    and "r < length g" "c < length (g ! r)"
  shows "distinct (filter (\<lambda>x. x \<noteq> 0) (unit_values (set_cell g r c v) ps))"
  using assms(1-3)
proof (induction ps)
  case Nil
  then show ?case by (simp add: unit_values_def)
next
  case (Cons p ps)
  have tl: "distinct (filter (\<lambda>x. x \<noteq> 0) (unit_values g ps))"
    using Cons.prems(2) by (auto simp: unit_values_def split: if_splits)
  show ?case
  proof (cases "p = (r, c)")
    case True
    then have notin: "(r, c) \<notin> set ps" and v: "v \<notin> set (unit_values g ps)"
      using Cons.prems(1,3) by (auto simp: unit_values_def)
    have "unit_values (set_cell g r c v) (p # ps) = v # unit_values g ps"
      using unit_values_set_cell_notin[OF notin, of g v] True assms(4,5)
      by (simp add: unit_values_def cell_at_set_cell_same)
    then show ?thesis using v tl by simp
  next
    case False
    have IH: "distinct (filter (\<lambda>x. x \<noteq> 0) (unit_values (set_cell g r c v) ps))"
      using Cons.IH Cons.prems(1,3) tl by (auto simp: unit_values_def)
    have hd: "cell_at (set_cell g r c v) p = cell_at g p"
      using False by (simp add: cell_at_set_cell_other)
    show ?thesis
    proof (cases "cell_at g p = 0")
      case True
      then show ?thesis using IH hd by (simp add: unit_values_def)
    next
      case nz: False
      have a: "cell_at g p \<notin> set (unit_values g ps)"
        using Cons.prems(2) nz by (auto simp: unit_values_def)
      have b: "cell_at g p \<notin> set (unit_values (set_cell g r c v) ps)"
      proof (cases "(r, c) \<in> set ps")
        case True
        then have "v \<noteq> cell_at g p" using Cons.prems(3) by (auto simp: unit_values_def)
        then show ?thesis using a set_unit_values_set_cell[of g r c v ps] by auto
      next
        case False
        then show ?thesis using a by (simp add: unit_values_set_cell_notin)
      qed
      have "unit_values (set_cell g r c v) (p # ps) =
              cell_at g p # unit_values (set_cell g r c v) ps"
        using hd by (simp add: unit_values_def)
      then show ?thesis using nz b IH by simp
    qed
  qed
qed

lemma valid_partial_place:
  assumes wf: "well_formed s" and vp: "valid_partial (sizeN s) (boxSize s) (board s)"
    and pos: "row < sizeN s" "col < sizeN s" and num: "0 < num" "num \<le> sizeN s"
    and ok: "isValidPlacement s row col (int num) = Inr True"
  shows "valid_partial (sizeN s) (boxSize s) (set_cell (board s) row col (int num))"
proof -
  let ?n = "sizeN s" and ?b = "boxSize s" and ?g = "board s"
  have nb: "?n = ?b * ?b" using wf by (simp add: well_formed_def)
  have rng: "row < length ?g" "col < length (?g ! row)"
    using well_formed_lengths[OF wf] pos by simp_all
  from ok isValidPlacement_wf[OF wf pos, of "int num"]
  have free: "int num \<notin> set (unit_values ?g (row_positions ?n row))"
    "int num \<notin> set (unit_values ?g (col_positions ?n col))"
    "int num \<notin> set (unit_values ?g (box_positions ?b (row - row mod ?b) (col - col mod ?b)))"
    by simp_all
  have "distinct (filter (\<lambda>x. x \<noteq> 0) (unit_values (set_cell ?g row col (int num)) u))"
    if u: "u \<in> set (all_units ?n ?b)" for u
  proof (rule distinct_nonzero_set_cell[OF _ _ _ rng])
    show "distinct u" using all_units_facts(1)[OF nb u] .
    show "distinct (filter (\<lambda>x. x \<noteq> 0) (unit_values ?g u))"
      using vp u by (simp add: valid_partial_def)
    show "int num \<notin> set (unit_values ?g u)" if "(row, col) \<in> set u"
      using units_through[OF u that] free by auto
  qed
  moreover have "0 \<le> cell_at (set_cell ?g row col (int num)) p \<and>
                 cell_at (set_cell ?g row col (int num)) p \<le> int ?n"
    if "p \<in> set (allCells ?n)" for p
  proof (cases "p = (row, col)")
    case True
    then show ?thesis using rng num by (simp add: cell_at_set_cell_same)
  next
    case False
    then have "cell_at (set_cell ?g row col (int num)) p = cell_at ?g p"
      by (rule cell_at_set_cell_other)
    moreover have "0 \<le> cell_at ?g p \<and> cell_at ?g p \<le> int ?n"
      using vp that unfolding valid_partial_def by blast
    ultimately show ?thesis by simp
  qed
  ultimately show ?thesis unfolding valid_partial_def by blast
qed

lemma full_valid_solved:
  assumes nb: "n = b * b" and "full n g" "valid_partial n b g"
  shows "solved n b g"
  unfolding solved_def
proof (intro ballI)
  fix u v assume u: "u \<in> set (all_units n b)" and v: "v \<in> set [1..int n]"
  have sub: "set u \<subseteq> set (allCells n)" using all_units_facts(3)[OF nb u] .
  have nz: "\<forall>x \<in> set (unit_values g u). x \<noteq> 0"
    using assms(2) sub by (auto simp: unit_values_def full_def)
  then have "filter (\<lambda>x. x \<noteq> 0) (unit_values g u) = unit_values g u" by simp
  then have d: "distinct (unit_values g u)"
    using assms(3) u by (auto simp: valid_partial_def)
  have "set (unit_values g u) \<subseteq> {1..int n}"
  proof
    fix x assume x: "x \<in> set (unit_values g u)"
    then obtain p where "p \<in> set u" "x = cell_at g p" by (auto simp: unit_values_def)
    then have "0 \<le> x \<and> x \<le> int n" using assms(3) sub by (auto simp: valid_partial_def)
    with nz x show "x \<in> {1..int n}" by force
  qed
  moreover have "length (unit_values g u) = n"
    using all_units_facts(2)[OF nb u] by (simp add: unit_values_def)
  ultimately show "count_list (unit_values g u) v = 1"
    using d v by (intro pigeonhole_count) auto
qed

lemma solved_unit:
  assumes nb: "n = b * b" and "solved n b g" and u: "u \<in> set (all_units n b)"
  shows "distinct (unit_values g u)" "set (unit_values g u) = {1..int n}"
proof -
  have c: "\<forall>v \<in> {1..int n}. count_list (unit_values g u) v = 1"
    using assms(2) u by (simp add: solved_def)
  have l: "length (unit_values g u) = n"
    using all_units_facts(2)[OF nb u] by (simp add: unit_values_def)
  from count_one_each[OF c l]
  show "distinct (unit_values g u)" "set (unit_values g u) = {1..int n}" .
qed

lemma solved_cell_range:
  assumes nb: "n = b * b" and "solved n b g" and "row < n" "col < n"
  shows "1 \<le> cell_at g (row, col)" "cell_at g (row, col) \<le> int n"
proof -
  have "cell_at g (row, col) \<in> set (unit_values g (row_positions n row))"
    using assms(3,4) by (auto simp: unit_values_def row_positions_facts)
  then have "cell_at g (row, col) \<in> {1..int n}"
    using solved_unit(2)[OF nb assms(2) units_of_position(1)[OF nb assms(3,4)]] by simp
  then show "1 \<le> cell_at g (row, col)" "cell_at g (row, col) \<le> int n" by simp_all
qed

lemma solved_full_valid:
  assumes nb: "n = b * b" and "solved n b g"
  shows "full n g" "valid_partial n b g"
proof -
  show "full n g"
    unfolding full_def using solved_cell_range(1)[OF assms] by fastforce
  show "valid_partial n b g"
    unfolding valid_partial_def
  proof (intro conjI ballI)
    fix p assume "p \<in> set (allCells n)"
    then show "0 \<le> cell_at g p" "cell_at g p \<le> int n"
      using solved_cell_range[OF assms, of "fst p" "snd p"] by auto
  next
    fix u assume "u \<in> set (all_units n b)"
    from solved_unit(1)[OF assms this]
    show "distinct (filter (\<lambda>v. v \<noteq> 0) (unit_values g u))" by (rule distinct_filter)
  qed
qed

subsection \<open>Soundness of the search\<close>

lemma effect_keeps:
  "effect s s' ok \<Longrightarrow> cell_at (board s) p \<noteq> 0 \<Longrightarrow> cell_at (board s') p = cell_at (board s) p"
  unfolding effect_def by blast

lemma branch_position:
  assumes "well_formed s" "cell (board s) row col = Some v"
  shows "row < sizeN s" "col < sizeN s" "cell_at (board s) (row, col) = v"
  using assms(2) well_formed_lengths[OF assms(1)] by (auto simp: cell_Some_iff cell_at_def)

lemma backtrack_valid_partial:
  "backtrack k row col s = Inr (ok, s') \<Longrightarrow> well_formed s \<Longrightarrow>
     valid_partial (sizeN s) (boxSize s) (board s) \<Longrightarrow>
     valid_partial (sizeN s) (boxSize s) (board s')"
  "try_nums k row col num s = Inr (ok, s') \<Longrightarrow> well_formed s \<Longrightarrow>
     valid_partial (sizeN s) (boxSize s) (board s) \<Longrightarrow>
     cell (board s) row col = Some 0 \<Longrightarrow> 0 < num \<Longrightarrow>
     valid_partial (sizeN s) (boxSize s) (board s')"
proof (induction k arbitrary: row col num s ok s' and row col num s ok s')
  case 0
  { case 1 then show ?case by simp }
  { case 2 then show ?case by simp }
next
  case (Suc k)
  { case 1
    from 1(1) show ?case
    proof (cases rule: backtrack_cases)
      case wrap
      from Suc.IH(1)[OF wrap(2)] 1(2,3) show ?thesis by simp
    next
      case finish
      then show ?thesis using 1(3) by simp
    next
      case (skip v)
      from Suc.IH(1)[OF skip(5)] 1(2,3) show ?thesis by simp
    next
      case branch
      from Suc.IH(2)[OF branch(4)] 1(2,3) branch(3) show ?thesis by simp
    qed }
  { case 2
    note wf = 2(2) and vp = 2(3) and z = 2(4) and pos = 2(5)
    from 2(1) show ?case
    proof (cases rule: try_nums_cases)
      case exhausted
      then show ?thesis using vp by simp
    next
      case invalid
      from Suc.IH(2)[OF invalid(3) wf vp z] show ?thesis by simp
    next
      case kept
      have "valid_partial (sizeN s) (boxSize s) (board (place s row col (int num)))"
        using valid_partial_place[OF wf vp branch_position(1,2)[OF wf z] pos kept(1,2)] by simp
      with Suc.IH(1)[OF kept(3)] wf show ?thesis by simp
    next
      case (undone t)
      have "effect (place s row col (int num)) t False"
        using backtrack_effect(1)[OF undone(3)] .
      then have bu: "board (undo t row col) = board s"
        using set_cell_restore[OF z] by (simp add: effect_def)
      have fr: "well_formed t" "sizeN t = sizeN s" "boxSize t = boxSize s"
        using backtrack_well_formed(1)[OF undone(3)] backtrack_same_frame(1)[OF undone(3)] wf
        by (simp_all add: same_frame_def)
      from Suc.IH(2)[OF undone(4)] fr bu vp z show ?thesis by simp
    qed }
qed

lemma backtrack_fills:
  "backtrack k row col s = Inr (True, s') \<Longrightarrow> well_formed s \<Longrightarrow>
     p \<in> set (allCells (sizeN s)) \<Longrightarrow> at_or_after row col p \<Longrightarrow> cell_at (board s') p \<noteq> 0"
  "try_nums k row col num s = Inr (True, s') \<Longrightarrow> well_formed s \<Longrightarrow>
     cell (board s) row col = Some 0 \<Longrightarrow> 0 < num \<Longrightarrow>
     p \<in> set (allCells (sizeN s)) \<Longrightarrow> at_or_after row col p \<Longrightarrow> cell_at (board s') p \<noteq> 0"
proof (induction k arbitrary: row col num s s' and row col num s s')
  case 0
  { case 1 then show ?case by simp }
  { case 2 then show ?case by simp }
next
  case (Suc k)
  { case 1
    note wf = 1(2) and p = 1(3) and after = 1(4)
    from 1(1) show ?case
    proof (cases rule: backtrack_cases)
      case wrap
      have "at_or_after (row + 1) 0 p"
        using after p wrap(1) by (auto simp: at_or_after_def)
      with Suc.IH(1)[OF wrap(2)] wf p show ?thesis by simp
    next
      case finish
      then show ?thesis using after p by (auto simp: at_or_after_def)
    next
      case (skip v)
      show ?thesis
      proof (cases "p = (row, col)")
        case True
        have "cell_at (board s) p \<noteq> 0"
          using branch_position(3)[OF wf skip(3)] skip(4) True by simp
        then show ?thesis
          using effect_keeps[OF backtrack_effect(1)[OF skip(5)], of p] by simp
      next
        case False
        then have "at_or_after row (col + 1) p"
          using after by (cases p) (auto simp: at_or_after_def)
        with Suc.IH(1)[OF skip(5)] wf p show ?thesis by simp
      qed
    next
      case branch
      from Suc.IH(2)[OF branch(4)] wf branch(3) p after show ?thesis by simp
    qed }
  { case 2
    note wf = 2(2) and z = 2(3) and pos = 2(4) and p = 2(5) and after = 2(6)
    from 2(1) show ?case
    proof (cases rule: try_nums_cases)
      case exhausted
      then show ?thesis by simp
    next
      case invalid
      from Suc.IH(2)[OF invalid(3) wf z _ p after] show ?thesis by simp
    next
      case kept
      have rng: "row < length (board s)" "col < length (board s ! row)"
        using z by (auto simp: cell_Some_iff)
      show ?thesis
      proof (cases "p = (row, col)")
        case True
        have "cell_at (board (place s row col (int num))) p \<noteq> 0"
          using True rng pos by (simp add: cell_at_set_cell_same)
        then show ?thesis
          using effect_keeps[OF backtrack_effect(1)[OF kept(3)], of p] by simp
      next
        case False
        then have "at_or_after row (col + 1) p"
          using after by (cases p) (auto simp: at_or_after_def)
        with Suc.IH(1)[OF kept(3)] wf p show ?thesis by simp
      qed
    next
      case (undone t)
      have "effect (place s row col (int num)) t False"
        using backtrack_effect(1)[OF undone(3)] .
      then have bu: "board (undo t row col) = board s"
        using set_cell_restore[OF z] by (simp add: effect_def)
      have fr: "well_formed t" "sizeN t = sizeN s"
        using backtrack_well_formed(1)[OF undone(3)] wf by simp_all
      from Suc.IH(2)[OF undone(4)] fr bu z p after show ?thesis by simp
    qed }
qed

lemma bruteForceSolver_sound:
  assumes "bruteForceSolver k s = Inr (True, s')" "well_formed s"
    "valid_partial (sizeN s) (boxSize s) (board s)"
  shows "solved (sizeN s) (boxSize s) (board s')"
proof -
  have bt: "backtrack k 0 0 s = Inr (True, s')" using assms(1) by (simp add: bruteForceSolver_def)
  have "full (sizeN s) (board s')"
    unfolding full_def using backtrack_fills(1)[OF bt assms(2)] by (auto simp: at_or_after_def)
  moreover have "sizeN s = boxSize s * boxSize s" using assms(2) by (simp add: well_formed_def)
  ultimately show ?thesis
    using backtrack_valid_partial(1)[OF bt assms(2,3)] by (intro full_valid_solved)
qed

subsection \<open>Completeness of the search\<close>

lemma completion_cell_free:
  assumes nb: "n = b * b" and c: "completion n b g S"
    and pos: "row < n" "col < n" and z: "cell_at g (row, col) = 0"
    and u: "u \<in> set (all_units n b)" "(row, col) \<in> set u"
  shows "cell_at S (row, col) \<notin> set (unit_values g u)"
proof
  let ?v = "cell_at S (row, col)"
  have sol: "solved n b S" and kg: "keeps_givens n g S" using c by (simp_all add: completion_def)
  assume "?v \<in> set (unit_values g u)"
  then obtain q where q: "q \<in> set u" "cell_at g q = ?v" by (auto simp: unit_values_def)
  have v: "1 \<le> ?v" using solved_cell_range(1)[OF nb sol pos] .
  have "q \<in> set (allCells n)" using all_units_facts(3)[OF nb u(1)] q(1) by auto
  then have "cell_at S q = ?v" using kg q(2) v by (auto simp: keeps_givens_def)
  moreover have "inj_on (cell_at S) (set u)"
    using solved_unit(1)[OF nb sol u(1)] by (simp add: unit_values_def distinct_map)
  ultimately have "q = (row, col)" using q(1) u(2) by (auto dest: inj_onD)
  with q(2) z v show False by simp
qed

lemma completion_place:
  assumes "completion n b g S" "row < length g" "col < length (g ! row)"
  shows "completion n b (set_cell g row col (cell_at S (row, col))) S"
proof -
  have "cell_at S p = cell_at (set_cell g row col (cell_at S (row, col))) p"
    if "p \<in> set (allCells n)" "cell_at (set_cell g row col (cell_at S (row, col))) p \<noteq> 0" for p
  proof (cases "p = (row, col)")
    case True
    then show ?thesis using assms(2,3) by (simp add: cell_at_set_cell_same)
  next
    case False
    then have "cell_at g p \<noteq> 0" using that(2) by (simp add: cell_at_set_cell_other)
    with assms(1) that(1) have "cell_at S p = cell_at g p"
      unfolding completion_def keeps_givens_def by blast
    then show ?thesis using False by (simp add: cell_at_set_cell_other)
  qed
  then show ?thesis using assms(1) by (simp add: completion_def keeps_givens_def)
qed

lemma invalid_no_completion:
  assumes wf: "well_formed s" and z: "cell (board s) row col = Some 0"
    and inv: "isValidPlacement s row col v = Inr False"
    and c: "completion (sizeN s) (boxSize s) (board s) S"
  shows "cell_at S (row, col) \<noteq> v"
proof
  assume eq: "cell_at S (row, col) = v"
  let ?n = "sizeN s" and ?b = "boxSize s"
  have nb: "?n = ?b * ?b" using wf by (simp add: well_formed_def)
  note pos = branch_position[OF wf z]
  note free = completion_cell_free[OF nb c pos(1,2,3), unfolded eq]
  have "v \<notin> set (unit_values (board s) (row_positions ?n row))"
    "v \<notin> set (unit_values (board s) (col_positions ?n col))"
    "v \<notin> set (unit_values (board s) (box_positions ?b (row - row mod ?b) (col - col mod ?b)))"
    using free units_of_position[OF nb pos(1,2)] by blast+
  then show False using inv isValidPlacement_wf[OF wf pos(1,2), of v] by simp
qed

lemma backtrack_complete:
  "backtrack k row col s = Inr (False, s') \<Longrightarrow> well_formed s \<Longrightarrow>
     \<not> completion (sizeN s) (boxSize s) (board s) S"
  "try_nums k row col num s = Inr (False, s') \<Longrightarrow> well_formed s \<Longrightarrow>
     cell (board s) row col = Some 0 \<Longrightarrow> 0 < num \<Longrightarrow>
     completion (sizeN s) (boxSize s) (board s) S \<Longrightarrow> cell_at S (row, col) < int num"
proof (induction k arbitrary: row col num s s' and row col num s s')
  case 0
  { case 1 then show ?case by simp }
  { case 2 then show ?case by simp }
next
  case (Suc k)
  { case 1
    note wf = 1(2)
    from 1(1) show ?case
    proof (cases rule: backtrack_cases)
      case wrap
      from Suc.IH(1)[OF wrap(2)] wf show ?thesis by simp
    next
      case finish
      then show ?thesis by simp
    next
      case (skip v)
      from Suc.IH(1)[OF skip(5)] wf show ?thesis by simp
    next
      case branch
      show ?thesis
      proof
        assume c: "completion (sizeN s) (boxSize s) (board s) S"
        have nb: "sizeN s = boxSize s * boxSize s" using wf by (simp add: well_formed_def)
        from Suc.IH(2)[OF branch(4)] wf branch(3) c
        have "cell_at S (row, col) < 1" by simp
        moreover have "1 \<le> cell_at S (row, col)"
          using solved_cell_range(1)[OF nb _ branch_position(1,2)[OF wf branch(3)]] c
          by (simp add: completion_def)
        ultimately show False by simp
      qed
    qed }
  { case 2
    note wf = 2(2) and z = 2(3) and pos = 2(4) and c = 2(5)
    have nb: "sizeN s = boxSize s * boxSize s" using wf by (simp add: well_formed_def)
    from 2(1) show ?case
    proof (cases rule: try_nums_cases)
      case exhausted
      have "cell_at S (row, col) \<le> int (sizeN s)"
        using solved_cell_range(2)[OF nb _ branch_position(1,2)[OF wf z]] c
        by (simp add: completion_def)
      with exhausted(1) show ?thesis by simp
    next
      case invalid
      from Suc.IH(2)[OF invalid(3) wf z _ c] have "cell_at S (row, col) < int (num + 1)" by simp
      moreover have "cell_at S (row, col) \<noteq> int num"
        using invalid_no_completion[OF wf z invalid(2) c] .
      ultimately show ?thesis by simp
    next
      case kept
      then show ?thesis by simp
    next
      case (undone t)
      have "effect (place s row col (int num)) t False"
        using backtrack_effect(1)[OF undone(3)] .
      then have bu: "board (undo t row col) = board s"
        using set_cell_restore[OF z] by (simp add: effect_def)
      have fr: "well_formed t" "sizeN t = sizeN s" "boxSize t = boxSize s"
        using backtrack_well_formed(1)[OF undone(3)] backtrack_same_frame(1)[OF undone(3)] wf
        by (simp_all add: same_frame_def)
      from Suc.IH(2)[OF undone(4)] fr bu z c
      have "cell_at S (row, col) < int (num + 1)" by simp
      moreover have "cell_at S (row, col) \<noteq> int num"
      proof
        assume eq: "cell_at S (row, col) = int num"
        have rng: "row < length (board s)" "col < length (board s ! row)"
          using z by (auto simp: cell_Some_iff)
        from completion_place[OF c rng] eq
        have "completion (sizeN s) (boxSize s) (board (place s row col (int num))) S" by simp
        with Suc.IH(1)[OF undone(3)] wf show False by simp
      qed
      ultimately show ?thesis by simp
    qed }
qed

lemma distinct_nonzero_erase:
  assumes "\<forall>p \<in> set ps. f p \<noteq> 0 \<longrightarrow> f' p = f p"
    and "distinct (filter (\<lambda>x. x \<noteq> 0) (map f' ps))"
  shows "distinct (filter (\<lambda>x. x \<noteq> (0::int)) (map f ps))"
  using assms
proof (induction ps)
  case Nil
  then show ?case by simp
next
  case (Cons p ps)
  have IH: "distinct (filter (\<lambda>x. x \<noteq> 0) (map f ps))"
    using Cons by (auto split: if_splits)
  show ?case
  proof (cases "f p = 0")
    case True
    then show ?thesis using IH by simp
  next
    case False
    then have e: "f' p = f p" using Cons.prems(1) by simp
    have "f p \<notin> set (filter (\<lambda>x. x \<noteq> 0) (map f ps))"
    proof
      assume "f p \<in> set (filter (\<lambda>x. x \<noteq> 0) (map f ps))"
      then obtain q where q: "q \<in> set ps" "f q = f p" by auto
      then have "f' q = f p" using Cons.prems(1) False by auto
      then have "f' p \<in> set (filter (\<lambda>x. x \<noteq> 0) (map f' ps))" using q(1) e False by force
      then show False using Cons.prems(2) e False by simp
    qed
    then show ?thesis using IH False by simp
  qed
qed

lemma valid_partial_givens:
  assumes nb: "n = b * b" and v: "valid_partial n b g'" and k: "keeps_givens n g g'"
  shows "valid_partial n b g"
  unfolding valid_partial_def
proof (intro conjI ballI)
  fix p assume p: "p \<in> set (allCells n)"
  show "0 \<le> cell_at g p" "cell_at g p \<le> int n"
    using v k p unfolding valid_partial_def keeps_givens_def by (metis order_refl of_nat_0_le_iff)+
next
  fix u assume u: "u \<in> set (all_units n b)"
  have "\<forall>p \<in> set u. cell_at g p \<noteq> 0 \<longrightarrow> cell_at g' p = cell_at g p"
    using k all_units_facts(3)[OF nb u] unfolding keeps_givens_def by blast
  moreover have "distinct (filter (\<lambda>x. x \<noteq> 0) (map (cell_at g') u))"
    using v u by (simp add: valid_partial_def unit_values_def)
  ultimately show "distinct (filter (\<lambda>v. v \<noteq> 0) (unit_values g u))"
    unfolding unit_values_def by (rule distinct_nonzero_erase)
qed

lemma backtrack_keeps_givens:
  assumes "backtrack k row col s = Inr (ok, s')"
  shows "keeps_givens n (board s) (board s')"
  using effect_keeps[OF backtrack_effect(1)[OF assms]] backtrack_same_frame(1)[OF assms]
  by (simp add: keeps_givens_def same_frame_def)

section \<open>The placement check\<close>

text \<open>
  Claim C8.  On a well-formed grid and for a position \<open>(row, col)\<close> inside it,
  \<open>isValidPlacement(row, col, num)\<close> returns true exactly when \<open>num\<close> occurs neither in
  row \<open>row\<close>, nor in column \<open>col\<close>, nor in the box whose corner is
  \<open>(row - row % boxSize, col - col % boxSize)\<close>.  The check never reads out of range
  there.  It is a function of the state that returns the boolean only, so it has no
  effect on the grid.  (The claim asks for \<open>num\<close> in \<open>1..size\<close>; the equivalence holds for
  every \<open>num\<close>.)
\<close>

theorem isValidPlacement_iff:
  assumes "well_formed s" "row < sizeN s" "col < sizeN s"
  shows "isValidPlacement s row col num =
     Inr (num \<notin> set (unit_values (board s) (row_positions (sizeN s) row)) \<and>
          num \<notin> set (unit_values (board s) (col_positions (sizeN s) col)) \<and>
          num \<notin> set (unit_values (board s)
                       (box_positions (boxSize s) (row - row mod boxSize s)
                                      (col - col mod boxSize s))))"
  using assms by (rule isValidPlacement_wf)

theorem isValidPlacement_iff_witness:
  "well_formed puzzle4 \<and> 1 < sizeN puzzle4 \<and> 2 < sizeN puzzle4 \<and>
   isValidPlacement puzzle4 1 2 1 = Inr True \<and>
   isValidPlacement puzzle4 1 2 3 = Inr False \<and>
   unit_values (board puzzle4) (box_positions 2 (1 - 1 mod 2) (2 - 2 mod 2)) = [3, 4, 0, 2]"
proof -
  have wf: "well_formed puzzle4" "1 < sizeN puzzle4" "2 < sizeN puzzle4"
    by (code_simp, code_simp, code_simp)
  have "isValidPlacement puzzle4 1 2 1 = Inr True"
    by (subst isValidPlacement_iff[OF wf]) code_simp
  moreover have "isValidPlacement puzzle4 1 2 3 = Inr False"
    by (subst isValidPlacement_iff[OF wf]) code_simp
  moreover have
    "unit_values (board puzzle4) (box_positions 2 (1 - 1 mod 2) (2 - 2 mod 2)) = [3, 4, 0, 2]"
    by code_simp
  ultimately show ?thesis using wf by simp
qed

lemma backtrack_diverges_size0:
  "sizeN s = 0 \<Longrightarrow> backtrack k row 0 s = Inl OutOfFuel"
  by (induction k arbitrary: row s) (simp_all add: Let_def)

section \<open>The step counter\<close>




section \<open>Givens are kept\<close>

text \<open>
  Claim C4.  Whatever the grid and whether the solver reports success or failure, a
  returning pass leaves every cell that was not empty at entry as it was, every write
  of the pass (placement or undo) is at a position that was empty at entry, and the
  shape of the board does not change.
\<close>

theorem bruteForceSolver_keeps_givens:
  assumes "bruteForceSolver k s = Inr (ok, s')"
  shows "map length (board s') = map length (board s) \<and>
         (\<forall>p. cell_at (board s) p \<noteq> 0 \<longrightarrow> cell_at (board s') p = cell_at (board s) p) \<and>
         (\<forall>e \<in> set (new_events s s'). \<forall>p. written e = Some p \<longrightarrow> cell_at (board s) p = 0)"
proof -
  have bt: "backtrack k 0 0 s = Inr (ok, s')" using assms by (simp add: bruteForceSolver_def)
  from backtrack_effect(1)[OF bt] obtain es where
    "\<forall>p. cell_at (board s) p \<noteq> 0 \<longrightarrow> cell_at (board s') p = cell_at (board s) p"
    "trace s' = trace s @ es"
    "\<forall>e \<in> set es. \<forall>p. written e = Some p \<longrightarrow> cell_at (board s) p = 0"
    unfolding effect_def by blast
  moreover have "map length (board s') = map length (board s)"
    using backtrack_same_frame(1)[OF bt] by (simp add: same_frame_def)
  ultimately show ?thesis by (simp add: new_events_append)
qed

theorem bruteForceSolver_keeps_givens_witness:
  "bruteForceSolver 40 puzzle4 = Inr (True, final (bruteForceSolver 40 puzzle4)) \<and>
   cell_at (board puzzle4) (1, 3) = 2 \<and>
   cell_at (board (final (bruteForceSolver 40 puzzle4))) (1, 3) = 2 \<and>
   map length (board (final (bruteForceSolver 40 puzzle4))) = [4, 4, 4, 4] \<and>
   bruteForceSolver 40 stuck4 = Inr (False, final (bruteForceSolver 40 stuck4)) \<and>
   cell_at (board stuck4) (1, 3) = 4 \<and>
   cell_at (board (final (bruteForceSolver 40 stuck4))) (1, 3) = 4"
proof -
  let ?r = "final (bruteForceSolver 40 puzzle4)" and ?f = "final (bruteForceSolver 40 stuck4)"
  have run: "bruteForceSolver 40 puzzle4 = Inr (True, ?r)" by code_simp
  have run': "bruteForceSolver 40 stuck4 = Inr (False, ?f)" by code_simp
  have g: "cell_at (board puzzle4) (1, 3) = 2" "map length (board puzzle4) = [4, 4, 4, 4]"
    "cell_at (board stuck4) (1, 3) = 4"
    by (code_simp, code_simp, code_simp)
  from bruteForceSolver_keeps_givens[OF run] bruteForceSolver_keeps_givens[OF run'] g run run'
  show ?thesis by simp
qed

section \<open>A failed pass restores the grid\<close>

text \<open>
  Claim C10.  If the backtracking solver returns failure, the board is exactly the
  board before the call: every placement of the failed search has been undone.
\<close>

theorem bruteForceSolver_failure_restores:
  assumes "bruteForceSolver k s = Inr (False, s')"
  shows "board s' = board s"
  using backtrack_effect(1)[OF assms[unfolded bruteForceSolver_def]] by (simp add: effect_def)

theorem bruteForceSolver_failure_restores_witness:
  "bruteForceSolver 40 stuck4 = Inr (False, final (bruteForceSolver 40 stuck4)) \<and>
   placements (new_events stuck4 (final (bruteForceSolver 40 stuck4))) = 2 \<and>
   board (final (bruteForceSolver 40 stuck4)) = board stuck4"
proof -
  let ?f = "final (bruteForceSolver 40 stuck4)"
  have run: "bruteForceSolver 40 stuck4 = Inr (False, ?f)" by code_simp
  have p: "placements (new_events stuck4 ?f) = 2" by code_simp
  from bruteForceSolver_failure_restores[OF run] run p show ?thesis by simp
qed

section \<open>Solving a grid that has no empty cell\<close>

text \<open>
  Claim C9.  On a well-formed grid without an empty cell (a solved grid is one), the
  solver returns, reports success, and writes no cell: the pass has no placement and no
  undo, and the board is unchanged.  (The counter still counts the invocations that
  walk over the grid.)
\<close>

theorem bruteForceSolver_full_grid:
  assumes "well_formed s" "full (sizeN s) (board s)"
  shows "\<exists>k s'. bruteForceSolver k s = Inr (True, s') \<and> board s' = board s \<and>
           filter is_write (new_events s s') = [] \<and> placements (new_events s s') = 0"
proof -
  from bruteForceSolver_terminates[OF assms(1)] obtain k ok s' where
    run: "bruteForceSolver k s = Inr (ok, s')" by blast
  from backtrack_full[OF run[unfolded bruteForceSolver_def] assms] obtain es where
    es: "ok" "board s' = board s" "trace s' = trace s @ es" "filter is_write es = []"
    by blast
  have "filter is_place es = []"
  proof -
    have "\<forall>e \<in> set es. \<not> is_write e" using es(4) by (simp add: filter_empty_conv)
    moreover have "is_place e \<Longrightarrow> is_write e" for e by (cases e) simp_all
    ultimately show ?thesis by (auto simp: filter_empty_conv)
  qed
  then have "placements es = 0" by (simp add: placements_def)
  with run es show ?thesis
    by (intro exI[of _ k] exI[of _ s']) (simp add: new_events_append)
qed

theorem bruteForceSolver_full_grid_witness:
  "well_formed solved4 \<and> full (sizeN solved4) (board solved4) \<and> solved 4 2 (board solved4) \<and>
   (\<exists>k s'. bruteForceSolver k solved4 = Inr (True, s') \<and> board s' = board solved4 \<and>
      filter is_write (new_events solved4 s') = [] \<and> placements (new_events solved4 s') = 0)"
proof -
  have h: "well_formed solved4" "full (sizeN solved4) (board solved4)"
    by (code_simp, code_simp)
  have "solved 4 2 (board solved4)" by code_simp
  with bruteForceSolver_full_grid[OF h] h show ?thesis by simp
qed

section \<open>The solver decides\<close>

text \<open>
  Claim C7, as the code has it.  On every well-formed grid (a positive size with an
  integer square root, \<open>size\<close> rows of \<open>size\<close> cells) the solver returns a boolean, and
  every returning run gives the same result.  If it reports failure, the board is as it
  was and no completion exists: no solved grid agrees with the givens.  If it reports
  success, the givens are untouched and no cell is empty, and the result is a solved
  grid exactly when the givens formed a valid partial state.  The solver never compares
  the givens with each other, so it reports success on givens that clash whenever the
  empty cells can still be filled.
\<close>

theorem bruteForceSolver_decides:
  assumes "well_formed s"
  shows "\<exists>k ok s'. bruteForceSolver k s = Inr (ok, s') \<and>
           (\<forall>k' r. bruteForceSolver k' s = Inr r \<longrightarrow> r = (ok, s')) \<and>
           (ok \<longrightarrow> keeps_givens (sizeN s) (board s) (board s') \<and> full (sizeN s) (board s') \<and>
                  (solved (sizeN s) (boxSize s) (board s') \<longleftrightarrow>
                   valid_partial (sizeN s) (boxSize s) (board s))) \<and>
           (\<not> ok \<longrightarrow> board s' = board s \<and>
                  (\<forall>S. \<not> completion (sizeN s) (boxSize s) (board s) S))"
proof -
  let ?n = "sizeN s" and ?b = "boxSize s"
  have nb: "?n = ?b * ?b" using assms by (simp add: well_formed_def)
  from bruteForceSolver_terminates[OF assms] obtain k ok s' where
    run: "bruteForceSolver k s = Inr (ok, s')" by blast
  then have bt: "backtrack k 0 0 s = Inr (ok, s')" by (simp add: bruteForceSolver_def)
  have det: "\<forall>k' r. bruteForceSolver k' s = Inr r \<longrightarrow> r = (ok, s')"
    using backtrack_deterministic[OF _ bt] by (auto simp: bruteForceSolver_def)
  have succ: "keeps_givens ?n (board s) (board s') \<and> full ?n (board s') \<and>
              (solved ?n ?b (board s') \<longleftrightarrow> valid_partial ?n ?b (board s))" if ok
  proof -
    have bt': "backtrack k 0 0 s = Inr (True, s')" using bt that by simp
    have kg: "keeps_givens ?n (board s) (board s')" using backtrack_keeps_givens[OF bt] .
    have fu: "full ?n (board s')"
      unfolding full_def using backtrack_fills(1)[OF bt' assms] by (auto simp: at_or_after_def)
    have "solved ?n ?b (board s')" if "valid_partial ?n ?b (board s)"
      using bruteForceSolver_sound[OF _ assms that] bt' by (simp add: bruteForceSolver_def)
    moreover have "valid_partial ?n ?b (board s)" if "solved ?n ?b (board s')"
      using valid_partial_givens[OF nb solved_full_valid(2)[OF nb that] kg] .
    ultimately show ?thesis using kg fu by blast
  qed
  have fail: "board s' = board s \<and> (\<forall>S. \<not> completion ?n ?b (board s) S)" if "\<not> ok"
  proof -
    have bt': "backtrack k 0 0 s = Inr (False, s')" using bt that by simp
    show ?thesis
      using backtrack_effect(1)[OF bt'] backtrack_complete(1)[OF bt' assms]
      by (simp add: effect_def)
  qed
  from run det succ fail show ?thesis by blast
qed

theorem bruteForceSolver_decides_witness:
  "well_formed puzzle4 \<and> valid_partial 4 2 (board puzzle4) \<and>
   (\<exists>k s'. bruteForceSolver k puzzle4 = Inr (True, s') \<and> solved 4 2 (board s')) \<and>
   well_formed stuck4 \<and>
   (\<exists>k s'. bruteForceSolver k stuck4 = Inr (False, s') \<and>
      (\<forall>S. \<not> completion 4 2 (board stuck4) S))"
proof -
  have wf: "well_formed puzzle4" "well_formed stuck4" by (code_simp, code_simp)
  have vp: "valid_partial 4 2 (board puzzle4)" by code_simp
  have sz: "sizeN puzzle4 = 4" "boxSize puzzle4 = 2" "sizeN stuck4 = 4" "boxSize stuck4 = 2"
    by (simp_all add: puzzle4_def stuck4_def grid_state_def)
  have run1: "bruteForceSolver 40 puzzle4 = Inr (True, final (bruteForceSolver 40 puzzle4))"
    by code_simp
  have run2: "bruteForceSolver 40 stuck4 = Inr (False, final (bruteForceSolver 40 stuck4))"
    by code_simp
  from bruteForceSolver_decides[OF wf(1)] run1 vp
  have "\<exists>k s'. bruteForceSolver k puzzle4 = Inr (True, s') \<and> solved 4 2 (board s')"
    unfolding sz by (metis prod.inject)
  moreover from bruteForceSolver_decides[OF wf(2)] run2
  have "\<exists>k s'. bruteForceSolver k stuck4 = Inr (False, s') \<and>
          (\<forall>S. \<not> completion 4 2 (board stuck4) S)"
    unfolding sz by (metis prod.inject)
  ultimately show ?thesis using wf vp by blast
qed

text \<open>
  The claim as stated fails on givens that clash: \<open>clash4\<close> has one empty cell, and a 4
  twice in its last row.  The solver fills the empty cell and reports success.
\<close>

theorem bruteForceSolver_clash_counterexample:
  "well_formed clash4 \<and>
   bruteForceSolver 40 clash4 = Inr (True, final (bruteForceSolver 40 clash4)) \<and>
   board (final (bruteForceSolver 40 clash4)) =
     [[1, 2, 3, 4], [3, 4, 1, 2], [2, 1, 4, 3], [4, 3, 2, 4]] \<and>
   \<not> solved 4 2 (board (final (bruteForceSolver 40 clash4)))"
  by code_simp

section \<open>The generation-time solve and the solver strategy\<close>

subsection \<open>The generation-time solve\<close>

lemma solveBoard_cases [consumes 1, case_names complete branch]:
  assumes "solveBoard (Suc k) s = Inr (ok, s')"
  obtains
    "findEmptyCell (sizeN s) (board s) = Inr None" "ok" "s' = s"
  | row col where "findEmptyCell (sizeN s) (board s) = Inr (Some (row, col))"
      "solveBoard_nums k row col 1 s = Inr (ok, s')"
  using assms by (auto split: sum.splits option.splits)

lemma solveBoard_nums_cases [consumes 1, case_names exhausted invalid kept undone]:
  assumes "solveBoard_nums (Suc k) row col num s = Inr (ok, s')"
  obtains
    "sizeN s < num" "\<not> ok" "s' = s"
  | "num \<le> sizeN s" "isValidPlacement s row col (int num) = Inr False"
      "solveBoard_nums k row col (num + 1) s = Inr (ok, s')"
  | "num \<le> sizeN s" "isValidPlacement s row col (int num) = Inr True"
      "solveBoard k (s\<lparr>board := set_cell (board s) row col (int num)\<rparr>) = Inr (True, s')" "ok"
  | t where "num \<le> sizeN s" "isValidPlacement s row col (int num) = Inr True"
      "solveBoard k (s\<lparr>board := set_cell (board s) row col (int num)\<rparr>) = Inr (False, t)"
      "solveBoard_nums k row col (num + 1) (t\<lparr>board := set_cell (board t) row col 0\<rparr>) = Inr (ok, s')"
  using assms
  by (auto simp: isValidPlacementOn_eq split: if_splits sum.splits bool.splits)

lemma solveBoard_fuel_mono:
  "solveBoard k s = Inr r \<Longrightarrow> k \<le> k' \<Longrightarrow> solveBoard k' s = Inr r"
  "solveBoard_nums k row col num s = Inr r \<Longrightarrow> k \<le> k' \<Longrightarrow> solveBoard_nums k' row col num s = Inr r"
proof (induction k arbitrary: row col num s r k' and row col num s r k')
  case 0
  { case 1 then show ?case by simp }
  { case 2 then show ?case by simp }
next
  case (Suc k)
  { case 1
    obtain j where j: "k' = Suc j" "k \<le> j" using 1(2) by (cases k') auto
    obtain ok s' where r: "r = (ok, s')" by (cases r)
    from 1(1)[unfolded r] show ?case unfolding j r
    proof (cases rule: solveBoard_cases)
      case complete
      then show "solveBoard (Suc j) s = Inr (ok, s')" by simp
    next
      case (branch row col)
      then show "solveBoard (Suc j) s = Inr (ok, s')"
        using Suc.IH(2)[OF branch(2) j(2)] by simp
    qed }
  { case 2
    obtain j where j: "k' = Suc j" "k \<le> j" using 2(2) by (cases k') auto
    obtain ok s' where r: "r = (ok, s')" by (cases r)
    from 2(1)[unfolded r] show ?case unfolding j r
    proof (cases rule: solveBoard_nums_cases)
      case exhausted
      then show "solveBoard_nums (Suc j) row col num s = Inr (ok, s')" by simp
    next
      case invalid
      then show "solveBoard_nums (Suc j) row col num s = Inr (ok, s')"
        using Suc.IH(2)[OF invalid(3) j(2)] by (simp add: isValidPlacementOn_eq)
    next
      case kept
      then show "solveBoard_nums (Suc j) row col num s = Inr (ok, s')"
        using Suc.IH(1)[OF kept(3) j(2)] by (simp add: isValidPlacementOn_eq)
    next
      case (undone t)
      then show "solveBoard_nums (Suc j) row col num s = Inr (ok, s')"
        using Suc.IH(1)[OF undone(3) j(2)] Suc.IH(2)[OF undone(4) j(2)]
        by (simp add: isValidPlacementOn_eq)
    qed }
qed

lemma solveBoard_deterministic:
  assumes "solveBoard k s = Inr r" "solveBoard k' s = Inr r'"
  shows "r = r'"
proof -
  have "solveBoard (max k k') s = Inr r" "solveBoard (max k k') s = Inr r'"
    using assms solveBoard_fuel_mono(1) by (meson max.cobounded1 max.cobounded2)+
  then show ?thesis by simp
qed

lemma solveBoard_same_frame:
  "solveBoard k s = Inr (ok, s') \<Longrightarrow>
     same_frame s s' \<and> steps s' = steps s \<and> trace s' = trace s"
  "solveBoard_nums k row col num s = Inr (ok, s') \<Longrightarrow>
     same_frame s s' \<and> steps s' = steps s \<and> trace s' = trace s"
proof (induction k arbitrary: row col num s ok s' and row col num s ok s')
  case 0
  { case 1 then show ?case by simp }
  { case 2 then show ?case by simp }
next
  case (Suc k)
  { case 1
    then show ?case
    proof (cases rule: solveBoard_cases)
      case complete
      then show ?thesis by (simp add: same_frame_def)
    next
      case (branch row col)
      then show ?thesis using Suc.IH(2) by blast
    qed }
  { case 2
    then show ?case
    proof (cases rule: solveBoard_nums_cases)
      case exhausted
      then show ?thesis by (simp add: same_frame_def)
    next
      case invalid
      then show ?thesis using Suc.IH(2) by blast
    next
      case kept
      from Suc.IH(1)[OF kept(3)] show ?thesis by (simp add: same_frame_def)
    next
      case (undone t)
      from Suc.IH(1)[OF undone(3)] Suc.IH(2)[OF undone(4)] show ?thesis
        by (simp add: same_frame_def)
    qed }
qed

subsection \<open>Finding the first empty cell\<close>

lemma first_empty_none:
  "\<forall>p \<in> set ps. \<exists>v. cell g (fst p) (snd p) = Some v \<and> v \<noteq> 0 \<Longrightarrow> first_empty g ps = Inr None"
  by (induction ps) auto

lemma first_empty_nth:
  "k < length ps \<Longrightarrow> \<forall>i < k. \<exists>v. cell g (fst (ps ! i)) (snd (ps ! i)) = Some v \<and> v \<noteq> 0 \<Longrightarrow>
   cell g (fst (ps ! k)) (snd (ps ! k)) = Some 0 \<Longrightarrow> first_empty g ps = Inr (Some (ps ! k))"
proof (induction ps arbitrary: k)
  case Nil
  then show ?case by simp
next
  case (Cons p ps)
  obtain a b where p: "p = (a, b)" by (cases p)
  show ?case
  proof (cases k)
    case 0
    then show ?thesis using Cons.prems p by simp
  next
    case (Suc j)
    have "\<exists>v. cell g a b = Some v \<and> v \<noteq> 0" using Cons.prems(2) Suc p by force
    moreover have "first_empty g ps = Inr (Some (ps ! j))"
      using Cons.prems Suc by (intro Cons.IH) auto
    ultimately show ?thesis using Suc p by auto
  qed
qed

lemma allCells_nth: "k < n * n \<Longrightarrow> allCells n ! k = (k div n, k mod n)"
proof -
  assume k: "k < n * n"
  then have "0 < n" by (cases n) auto
  then have "k div n < n" "k mod n < n" using k by (simp_all add: div_less_iff_less_mult)
  then show ?thesis using k by (simp add: allCells_def product_nth)
qed

lemma index_of_position:
  fixes row col n :: nat
  assumes "col < n"
  shows "(row * n + col) div n = row" "(row * n + col) mod n = col"
  using assms by simp_all

lemma index_lt:
  fixes row col n :: nat
  assumes "row < n" "col < n"
  shows "row * n + col < n * n"
proof -
  have "row * n + col < (row + 1) * n" using assms(2) by simp
  also have "\<dots> \<le> n * n" using assms(1) by (intro mult_le_mono1) simp
  finally show ?thesis .
qed

lemma allCells_index: "row < n \<Longrightarrow> col < n \<Longrightarrow> allCells n ! (row * n + col) = (row, col)"
  by (simp add: allCells_nth index_lt index_of_position)

lemma shape_cell:
  assumes "map length g = replicate n n" "p \<in> set (allCells n)"
  shows "cell g (fst p) (snd p) = Some (cell_at g p)"
proof -
  have l: "length g = n" using arg_cong[OF assms(1), of length] by simp
  have fp: "fst p < n" "snd p < n" using assms(2) by auto
  have "map length g ! fst p = length (g ! fst p)" using fp l by (intro nth_map) simp
  then have "length (g ! fst p) = n" using fp by (simp add: assms(1))
  then show ?thesis using fp l by (simp add: cell_def cell_at_def)
qed

lemma findEmptyCell_full:
  assumes "map length g = replicate n n" "filled_before n g k" "n * n \<le> k"
  shows "findEmptyCell n g = Inr None"
  unfolding findEmptyCell_def allCells_def[symmetric]
proof (rule first_empty_none, rule ballI)
  fix p assume p: "p \<in> set (allCells n)"
  then obtain i where i: "i < n * n" "allCells n ! i = p"
    by (metis in_set_conv_nth length_product length_upt diff_zero allCells_def)
  then have "cell_at g p \<noteq> 0" using assms(2,3) by (auto simp: filled_before_def)
  with shape_cell[OF assms(1) p] show "\<exists>v. cell g (fst p) (snd p) = Some v \<and> v \<noteq> 0" by simp
qed

lemma findEmptyCell_first:
  assumes sh: "map length g = replicate n n" and fb: "filled_before n g (row * n + col)"
    and pos: "row < n" "col < n" and z: "cell_at g (row, col) = 0"
  shows "findEmptyCell n g = Inr (Some (row, col))"
proof -
  let ?k = "row * n + col" and ?ps = "allCells n"
  have k: "?k < length ?ps" using index_lt[OF pos] by (simp add: allCells_def)
  have at: "?ps ! ?k = (row, col)" using allCells_index[OF pos] .
  have "\<exists>v. cell g (fst (?ps ! i)) (snd (?ps ! i)) = Some v \<and> v \<noteq> 0" if "i < ?k" for i
  proof -
    have "i < length ?ps" using that k by simp
    then have "?ps ! i \<in> set ?ps" by (rule nth_mem)
    moreover have "cell_at g (?ps ! i) \<noteq> 0"
      using fb that index_lt[OF pos] by (auto simp: filled_before_def)
    ultimately show ?thesis using shape_cell[OF sh] by simp
  qed
  moreover have "cell g (fst (?ps ! ?k)) (snd (?ps ! ?k)) = Some 0"
    using shape_cell[OF sh, of "(row, col)"] pos z at by simp
  ultimately have "first_empty g ?ps = Inr (Some (?ps ! ?k))"
    using k by (intro first_empty_nth) auto
  then show ?thesis by (simp add: findEmptyCell_def allCells_def at[unfolded allCells_def])
qed

lemma filled_before_next:
  assumes "filled_before n g (row * n + col)" "row < n" "col < n" "cell_at g (row, col) \<noteq> 0"
  shows "filled_before n g (row * n + (col + 1))"
  unfolding filled_before_def
proof
  fix i assume i: "i \<in> {0..<min (row * n + (col + 1)) (n * n)}"
  show "cell_at g (allCells n ! i) \<noteq> 0"
  proof (cases "i = row * n + col")
    case True
    then show ?thesis using assms(2-4) by (simp add: allCells_index)
  next
    case False
    then show ?thesis using assms(1) i by (auto simp: filled_before_def)
  qed
qed

lemma filled_before_place:
  assumes fb: "filled_before n g (row * n + col)" and pos: "row < n" "col < n"
    and rng: "row < length g" "col < length (g ! row)" and v: "v \<noteq> 0"
  shows "filled_before n (set_cell g row col v) (row * n + (col + 1))"
  unfolding filled_before_def
proof
  fix i assume i: "i \<in> {0..<min (row * n + (col + 1)) (n * n)}"
  show "cell_at (set_cell g row col v) (allCells n ! i) \<noteq> 0"
  proof (cases "i = row * n + col")
    case True
    then show ?thesis using pos rng v by (simp add: allCells_index cell_at_set_cell_same)
  next
    case False
    have "i < n * n" using i by simp
    then have "allCells n ! i \<noteq> (row, col)"
      using False pos by (auto simp: allCells_nth)
    moreover have "cell_at g (allCells n ! i) \<noteq> 0"
      using fb i False by (auto simp: filled_before_def)
    ultimately show ?thesis by (simp add: cell_at_set_cell_other)
  qed
qed

subsection \<open>The two searches agree\<close>

lemma same_grid_isValidPlacement:
  "same_grid s t \<Longrightarrow> isValidPlacement t = isValidPlacement s"
  by (intro ext) (simp add: same_grid_def isValidPlacement_def)

lemma solveBoard_follows_backtrack:
  "backtrack k row col s = Inr (ok, s') \<Longrightarrow> well_formed s \<Longrightarrow>
     (row < sizeN s \<and> col \<le> sizeN s) \<or> (row = sizeN s \<and> col = 0) \<Longrightarrow>
     filled_before (sizeN s) (board s) (row * sizeN s + col) \<Longrightarrow> same_grid s t \<Longrightarrow>
     \<exists>j t'. solveBoard j t = Inr (ok, t') \<and> board t' = board s'"
  "try_nums k row col num s = Inr (ok, s') \<Longrightarrow> well_formed s \<Longrightarrow>
     cell (board s) row col = Some 0 \<Longrightarrow> 0 < num \<Longrightarrow>
     filled_before (sizeN s) (board s) (row * sizeN s + col) \<Longrightarrow> same_grid s t \<Longrightarrow>
     \<exists>j t'. solveBoard_nums j row col num t = Inr (ok, t') \<and> board t' = board s'"
proof (induction k arbitrary: row col num s ok s' t and row col num s ok s' t)
  case 0
  { case 1 then show ?case by simp }
  { case 2 then show ?case by simp }
next
  case (Suc k)
  { case 1
    note wf = 1(2) and pos = 1(3) and fb = 1(4) and sg = 1(5)
    have sh: "map length (board t) = replicate (sizeN t) (sizeN t)"
      using wf sg by (simp add: well_formed_def same_grid_def)
    have sg': "same_grid (enter s row col) t" using sg by (simp add: same_grid_def)
    from 1(1) show ?case
    proof (cases rule: backtrack_cases)
      case wrap
      have r: "row < sizeN s" using pos wrap(1) wf by (auto simp: well_formed_def)
      have wf': "well_formed (enter s row col)" using wf by simp
      have pos': "(row + 1 < sizeN (enter s row col) \<and> 0 \<le> sizeN (enter s row col)) \<or>
                  (row + 1 = sizeN (enter s row col) \<and> (0::nat) = 0)"
        using r by auto
      have "(row + 1) * sizeN s + 0 = row * sizeN s + col" using wrap(1) by simp
      then have fb': "filled_before (sizeN (enter s row col)) (board (enter s row col))
                        ((row + 1) * sizeN (enter s row col) + 0)"
        using fb by (simp add: add.commute)
      from Suc.IH(1)[OF wrap(2) wf' pos' fb' sg'] show ?thesis .
    next
      case finish
      have le: "sizeN t * sizeN t \<le> row * sizeN s + col"
        using finish(2) sg by (simp add: same_grid_def)
      have fbt: "filled_before (sizeN t) (board t) (row * sizeN s + col)"
        using fb sg by (simp add: same_grid_def)
      have "findEmptyCell (sizeN t) (board t) = Inr None"
        using findEmptyCell_full[OF sh fbt le] .
      then have sb: "solveBoard (Suc 0) t = Inr (ok, t)" using finish(3) by simp
      have "board t = board s'" using finish(4) sg by (simp add: same_grid_def)
      with sb show ?thesis by blast
    next
      case (skip v)
      have p: "row < sizeN s" "col < sizeN s" "cell_at (board s) (row, col) = v"
        using branch_position[OF wf skip(3)] .
      have "filled_before (sizeN s) (board s) (row * sizeN s + (col + 1))"
        using filled_before_next[OF fb p(1,2)] p(3) skip(4) by simp
      then show ?thesis
        using Suc.IH(1)[OF skip(5), of t] wf p sg' by simp
    next
      case branch
      have p: "row < sizeN s" "col < sizeN s" "cell_at (board s) (row, col) = 0"
        using branch_position[OF wf branch(3)] .
      from Suc.IH(2)[OF branch(4), of t] wf branch(3) fb sg' obtain j t' where
        j: "solveBoard_nums j row col 1 t = Inr (ok, t')" "board t' = board s'" by auto
      have "findEmptyCell (sizeN t) (board t) = Inr (Some (row, col))"
        using findEmptyCell_first[OF sh] fb p sg by (simp add: same_grid_def)
      then have "solveBoard (Suc j) t = Inr (ok, t')" using j(1) by simp
      then show ?thesis using j(2) by blast
    qed }
  { case 2
    note wf = 2(2) and z = 2(3) and num = 2(4) and fb = 2(5) and sg = 2(6)
    note p = branch_position[OF wf z]
    have rng: "row < length (board s)" "col < length (board s ! row)"
      using z by (auto simp: cell_Some_iff)
    have iv: "isValidPlacementOn (sizeN t) (boxSize t) (board t) = isValidPlacement s"
      using same_grid_isValidPlacement[OF sg] by (simp add: isValidPlacementOn_eq)
    have sz: "sizeN t = sizeN s" "board t = board s" using sg by (simp_all add: same_grid_def)
    from 2(1) show ?case
    proof (cases rule: try_nums_cases)
      case exhausted
      then have sb: "solveBoard_nums (Suc 0) row col num t = Inr (ok, t)" using sz by simp
      have "board t = board s'" using exhausted(3) sz by simp
      with sb show ?thesis by blast
    next
      case invalid
      from Suc.IH(2)[OF invalid(3) wf z _ fb sg] obtain j t' where
        j: "solveBoard_nums j row col (num + 1) t = Inr (ok, t')" "board t' = board s'" by auto
      have "solveBoard_nums (Suc j) row col num t = Inr (ok, t')"
        using j(1) invalid(1,2) iv sz by simp
      then show ?thesis using j(2) by blast
    next
      case kept
      let ?t1 = "t\<lparr>board := set_cell (board t) row col (int num)\<rparr>"
      have sg1: "same_grid (place s row col (int num)) ?t1"
        using sg by (simp add: same_grid_def)
      have fb1: "filled_before (sizeN s) (board (place s row col (int num))) (row * sizeN s + (col + 1))"
        using filled_before_place[OF fb p(1,2) rng] num by simp
      from Suc.IH(1)[OF kept(3) _ _ _ sg1] wf p(1,2) fb1 obtain j t' where
        j: "solveBoard j ?t1 = Inr (True, t')" "board t' = board s'" by auto
      have "solveBoard_nums (Suc j) row col num t = Inr (ok, t'\<lparr>board := board t'\<rparr>)"
        using j(1) kept(1,2,4) iv sz by simp
      moreover have "board (t'\<lparr>board := board t'\<rparr>) = board s'" using j(2) by simp
      ultimately show ?thesis by blast
    next
      case (undone u)
      let ?t1 = "t\<lparr>board := set_cell (board t) row col (int num)\<rparr>"
      have sg1: "same_grid (place s row col (int num)) ?t1"
        using sg by (simp add: same_grid_def)
      have fb1: "filled_before (sizeN s) (board (place s row col (int num))) (row * sizeN s + (col + 1))"
        using filled_before_place[OF fb p(1,2) rng] num by simp
      from Suc.IH(1)[OF undone(3) _ _ _ sg1] wf p(1,2) fb1 obtain j1 t1 where
        j1: "solveBoard j1 ?t1 = Inr (False, t1)" "board t1 = board u" by auto
      have "effect (place s row col (int num)) u False"
        using backtrack_effect(1)[OF undone(3)] .
      then have bu: "board (undo u row col) = board s"
        using set_cell_restore[OF z] by (simp add: effect_def)
      have fu: "well_formed u" "sizeN u = sizeN s" "boxSize u = boxSize s"
        using backtrack_well_formed(1)[OF undone(3)] backtrack_same_frame(1)[OF undone(3)] wf
        by (simp_all add: same_frame_def)
      let ?t2 = "t1\<lparr>board := set_cell (board t1) row col 0\<rparr>"
      have "same_frame ?t1 t1" using solveBoard_same_frame(1)[OF j1(1)] by simp
      then have sg2: "same_grid (undo u row col) ?t2"
        using sg fu j1(2) by (simp add: same_grid_def same_frame_def)
      from Suc.IH(2)[OF undone(4) _ _ _ _ sg2] fu bu z fb obtain j2 t' where
        j2: "solveBoard_nums j2 row col (num + 1) ?t2 = Inr (ok, t')" "board t' = board s'"
        by auto
      have a: "solveBoard (max j1 j2) ?t1 = Inr (False, t1)"
        using solveBoard_fuel_mono(1)[OF j1(1)] by simp
      have b: "solveBoard_nums (max j1 j2) row col (num + 1) ?t2 = Inr (ok, t')"
        using solveBoard_fuel_mono(2)[OF j2(1)] by simp
      have "solveBoard_nums (Suc (max j1 j2)) row col num t = Inr (ok, t')"
        using a b undone(1,2) iv sz by simp
      then show ?thesis using j2(2) by blast
    qed }
qed

lemma solveBoard_agrees:
  assumes "well_formed s"
  shows "\<exists>k j ok s' t'. bruteForceSolver k s = Inr (ok, s') \<and> solveBoard j s = Inr (ok, t') \<and>
           board t' = board s'"
proof -
  from bruteForceSolver_terminates[OF assms] obtain k ok s' where
    run: "bruteForceSolver k s = Inr (ok, s')" by blast
  have "filled_before (sizeN s) (board s) (0 * sizeN s + 0)" by (simp add: filled_before_def)
  moreover have "same_grid s s" by (simp add: same_grid_def)
  moreover have "0 < sizeN s" using assms by (auto simp: well_formed_def)
  ultimately obtain j t' where "solveBoard j s = Inr (ok, t')" "board t' = board s'"
    using solveBoard_follows_backtrack(1)[OF run[unfolded bruteForceSolver_def] assms, of s]
    by auto
  with run show ?thesis by blast
qed

lemma solveBoard_sound:
  assumes "solveBoard j s = Inr (True, t')" "well_formed s"
    "valid_partial (sizeN s) (boxSize s) (board s)"
  shows "solved (sizeN s) (boxSize s) (board t')"
proof -
  from solveBoard_agrees[OF assms(2)] obtain k i ok s' u where
    r: "bruteForceSolver k s = Inr (ok, s')" "solveBoard i s = Inr (ok, u)" "board u = board s'"
    by blast
  from solveBoard_deterministic[OF assms(1) r(2)] have "ok" "t' = u" by simp_all
  with r bruteForceSolver_sound[OF _ assms(2,3)] show ?thesis by simp
qed

section \<open>Generation and the solver strategy\<close>




section \<open>Removing digits\<close>

lemma shuffle_mset:
  assumes "fair draw"
  shows "mset (fst (shuffle draw xs rng)) = mset xs"
proof -
  obtain p rng' where d: "draw (length xs) rng = (p, rng')" by (cases "draw (length xs) rng")
  have "mset p = mset [0..<length xs]" using assms d by (metis fair_def fst_conv)
  then have "mset (map (\<lambda>i. xs ! i) p) = mset (map (\<lambda>i. xs ! i) [0..<length xs])"
    by (metis mset_map)
  then show ?thesis by (simp add: shuffle_def d map_nth)
qed

lemma distinct_allCells: "distinct (allCells n)"
  by (simp add: allCells_def distinct_product)

lemma length_allCells [simp]: "length (allCells n) = n * n"
  by (simp add: allCells_def)

lemma clear_cells_in_range:
  assumes "\<forall>p \<in> set ps. fst p < length g \<and> snd p < length (g ! fst p)"
  shows "\<exists>g'. clear_cells ps g = Inr g' \<and> map length g' = map length g \<and>
           (\<forall>p. cell_at g' p = (if p \<in> set ps then 0 else cell_at g p))"
  using assms
proof (induction ps arbitrary: g)
  case Nil
  then show ?case by simp
next
  case (Cons q ps)
  obtain r c where q: "q = (r, c)" by (cases q)
  have rng: "r < length g" "c < length (g ! r)" using Cons.prems q by auto
  let ?g1 = "set_cell g r c 0"
  have "\<forall>p \<in> set ps. fst p < length ?g1 \<and> snd p < length (?g1 ! fst p)"
    using Cons.prems cell_same_frame[OF map_length_set_cell[of g r c 0]] by auto
  from Cons.IH[OF this] obtain g' where g':
    "clear_cells ps ?g1 = Inr g'" "map length g' = map length ?g1"
    "\<forall>p. cell_at g' p = (if p \<in> set ps then 0 else cell_at ?g1 p)" by blast
  have "cell_at g' p = (if p \<in> set (q # ps) then 0 else cell_at g p)" for p
  proof (cases "p = (r, c)")
    case True
    have "cell_at g' p = (if p \<in> set ps then 0 else cell_at ?g1 p)" using g'(3) by blast
    then show ?thesis using True q rng by (simp add: cell_at_set_cell_same)
  next
    case False
    have "cell_at g' p = (if p \<in> set ps then 0 else cell_at ?g1 p)" using g'(3) by blast
    moreover have "cell_at ?g1 p = cell_at g p" using False by (rule cell_at_set_cell_other)
    ultimately show ?thesis using False q by simp
  qed
  then show ?case using g'(1,2) q rng by simp
qed

lemma cast_to_int_nonneg: "0 \<le> x \<Longrightarrow> cast_to_int x = \<lfloor>x\<rfloor>"
  by (simp add: cast_to_int_def)

lemma removal_bounds:
  fixes d :: rat and m :: nat
  assumes "0 \<le> d" "d \<le> 1"
  shows "0 \<le> \<lfloor>of_int (int m) * d\<rfloor>" "\<lfloor>of_int (int m) * d\<rfloor> \<le> int m"
proof -
  have "0 \<le> of_int (int m) * d" using assms(1) by simp
  then show "0 \<le> \<lfloor>of_int (int m) * d\<rfloor>" by simp
  have "of_int (int m) * d \<le> of_int (int m) * 1"
    using assms(2) by (intro mult_left_mono) simp_all
  then have "\<lfloor>of_int (int m) * d\<rfloor> \<le> \<lfloor>(of_int (int m) :: rat)\<rfloor>"
    by (intro floor_mono) simp
  then show "\<lfloor>of_int (int m) * d\<rfloor> \<le> int m" by simp
qed

lemma removeDigits_result:
  assumes fair: "fair draw"
    and sh: "map length (board s) = replicate (sizeN s) (sizeN s)"
    and small: "int (sizeN s * sizeN s) \<le> INT_MAX"
    and cast: "- INT_MAX - 1 \<le> cast_to_int (of_int (int (sizeN s * sizeN s)) * d)"
      "cast_to_int (of_int (int (sizeN s * sizeN s)) * d) \<le> INT_MAX"
  shows "\<exists>s' rng' ps. removeDigits draw d s rng = Inr (s', rng') \<and>
           distinct ps \<and> set ps \<subseteq> set (allCells (sizeN s)) \<and>
           length ps = nat (min (cast_to_int (of_int (int (sizeN s * sizeN s)) * d))
                                (int (sizeN s * sizeN s))) \<and>
           map length (board s') = map length (board s) \<and>
           (\<forall>p. cell_at (board s') p = (if p \<in> set ps then 0 else cell_at (board s) p))"
proof -
  let ?n = "sizeN s"
  let ?c = "cast_to_int (of_int (int (?n * ?n)) * d)"
  obtain cells rng' where sf: "shuffle draw (allCells ?n) rng = (cells, rng')"
    by (cases "shuffle draw (allCells ?n) rng")
  have ms: "mset cells = mset (allCells ?n)" using shuffle_mset[OF fair, of "allCells ?n" rng] sf by simp
  have dc: "distinct cells" using ms distinct_allCells by (metis mset_eq_imp_distinct_iff)
  have sc: "set cells = set (allCells ?n)" using ms by (rule mset_eq_setD)
  have lc: "length cells = ?n * ?n" using ms by (metis length_allCells mset_eq_length)
  let ?m = "min ?c (int (?n * ?n))"
  let ?ps = "take (nat ?m) cells"
  have dps: "distinct ?ps" using dc by simp
  have sps: "set ?ps \<subseteq> set (allCells ?n)" using sc by (metis set_take_subset)
  have lps: "length ?ps = nat ?m"
  proof -
    define k where "k = nat ?m"
    have "k \<le> length cells" unfolding k_def lc by linarith
    then have "length (take k cells) = k" by simp
    then show ?thesis unfolding k_def .
  qed
  have "\<forall>p \<in> set ?ps. fst p < length (board s) \<and> snd p < length (board s ! fst p)"
  proof
    fix p assume "p \<in> set ?ps"
    then have p: "p \<in> set (allCells ?n)" using sps by blast
    from shape_cell[OF sh p] show "fst p < length (board s) \<and> snd p < length (board s ! fst p)"
      by (simp add: cell_Some_iff)
  qed
  from clear_cells_in_range[OF this] obtain g' where g':
    "clear_cells ?ps (board s) = Inr g'" "map length g' = map length (board s)"
    "\<forall>p. cell_at g' p = (if p \<in> set ?ps then 0 else cell_at (board s) p)" by blast
  have ok1: "\<not> INT_MAX < int ?n * int ?n" using small by simp
  have ok2: "\<not> (?c < - INT_MAX - 1 \<or> INT_MAX < ?c)" using cast by linarith
  have "removeDigits draw d s rng = Inr (s\<lparr>board := g'\<rparr>, rng')"
    using ok1 ok2 sf g'(1) by (simp add: removeDigits_def Let_def)
  then show ?thesis using dps sps lps g'(2,3)
    by (intro exI[of _ "s\<lparr>board := g'\<rparr>"] exI[of _ rng'] exI[of _ ?ps]) simp
qed




section \<open>Construction and configuration errors\<close>

lemma isqrt_upto_spec:
  "isqrt_upto n k * isqrt_upto n k \<le> n \<and> isqrt_upto n k \<le> k \<and>
   (\<forall>j. isqrt_upto n k < j \<and> j \<le> k \<longrightarrow> n < j * j)"
proof (induction k)
  case 0
  then show ?case by auto
next
  case (Suc k)
  show ?case
  proof (cases "Suc k * Suc k \<le> n")
    case True
    then show ?thesis by simp
  next
    case False
    then show ?thesis using Suc by (auto simp: le_Suc_eq)
  qed
qed

lemma isqrt_spec: "isqrt n * isqrt n \<le> n" "n < (isqrt n + 1) * (isqrt n + 1)"
proof -
  show "isqrt n * isqrt n \<le> n" using isqrt_upto_spec[of n n] by (simp add: isqrt_def)
  show "n < (isqrt n + 1) * (isqrt n + 1)"
  proof (cases "isqrt n + 1 \<le> n")
    case True
    have "\<forall>j. isqrt n < j \<and> j \<le> n \<longrightarrow> n < j * j"
      using isqrt_upto_spec[of n n] by (simp only: isqrt_def) blast
    then show ?thesis using True by (metis less_add_one)
  next
    case False
    then have "n < isqrt n + 1" by simp
    also have "\<dots> \<le> (isqrt n + 1) * (isqrt n + 1)" by simp
    finally show ?thesis .
  qed
qed

lemma isqrt_unique:
  assumes "b * b \<le> n" "n < (b + 1) * (b + 1)"
  shows "isqrt n = b"
proof (rule ccontr)
  assume "isqrt n \<noteq> b"
  then consider "isqrt n + 1 \<le> b" | "b + 1 \<le> isqrt n" by linarith
  then show False
  proof cases
    case 1
    then have "(isqrt n + 1) * (isqrt n + 1) \<le> b * b" by (intro mult_le_mono)
    with isqrt_spec(2)[of n] assms(1) show False by simp
  next
    case 2
    then have "(b + 1) * (b + 1) \<le> isqrt n * isqrt n" by (intro mult_le_mono)
    with isqrt_spec(1)[of n] assms(2) show False by simp
  qed
qed

lemma isqrt_square [simp]: "isqrt (b * b) = b"
  by (rule isqrt_unique) simp_all

text \<open>\<open>isqrt\<close> is the integer part of the real square root.\<close>

lemma isqrt_floor_sqrt: "int (isqrt n) = \<lfloor>sqrt (real n)\<rfloor>"
proof -
  have "(real (isqrt n))\<^sup>2 \<le> real n"
    using isqrt_spec(1)[of n] by (metis of_nat_le_iff of_nat_mult power2_eq_square)
  then have lo: "real (isqrt n) \<le> sqrt (real n)" by (rule real_le_rsqrt)
  have "real n < (real (isqrt n + 1))\<^sup>2"
    using isqrt_spec(2)[of n] by (metis of_nat_less_iff of_nat_mult power2_eq_square)
  then have "sqrt (real n) < sqrt ((real (isqrt n + 1))\<^sup>2)" by (simp only: real_sqrt_less_iff)
  then have hi: "sqrt (real n) < real (isqrt n) + 1" by simp
  show ?thesis using lo hi by (intro floor_unique[symmetric]) simp_all
qed





section \<open>Seeding the diagonal boxes\<close>

lemma valid_partial_set_cell:
  assumes nb: "n = b * b" and vp: "valid_partial n b g"
    and rng: "r < length g" "c < length (g ! r)"
    and v: "0 \<le> v" "v \<le> int n"
    and free: "\<And>u. u \<in> set (all_units n b) \<Longrightarrow> (r, c) \<in> set u \<Longrightarrow> v \<notin> set (unit_values g u)"
  shows "valid_partial n b (set_cell g r c v)"
proof -
  have "distinct (filter (\<lambda>x. x \<noteq> 0) (unit_values (set_cell g r c v) u))"
    if u: "u \<in> set (all_units n b)" for u
  proof (rule distinct_nonzero_set_cell[OF _ _ _ rng])
    show "distinct u" using all_units_facts(1)[OF nb u] .
    show "distinct (filter (\<lambda>x. x \<noteq> 0) (unit_values g u))"
      using vp u by (simp add: valid_partial_def)
    show "v \<notin> set (unit_values g u)" if "(r, c) \<in> set u" using free[OF u that] .
  qed
  moreover have "0 \<le> cell_at (set_cell g r c v) p \<and> cell_at (set_cell g r c v) p \<le> int n"
    if "p \<in> set (allCells n)" for p
  proof (cases "p = (r, c)")
    case True
    then show ?thesis using rng v by (simp add: cell_at_set_cell_same)
  next
    case False
    then have "cell_at (set_cell g r c v) p = cell_at g p" by (rule cell_at_set_cell_other)
    moreover have "0 \<le> cell_at g p \<and> cell_at g p \<le> int n"
      using vp that unfolding valid_partial_def by blast
    ultimately show ?thesis by simp
  qed
  ultimately show ?thesis unfolding valid_partial_def by blast
qed

lemma nth_notin_take:
  assumes "distinct xs" "k < length xs"
  shows "xs ! k \<notin> set (take k xs)"
proof -
  have "xs = take k xs @ xs ! k # drop (Suc k) xs" using assms(2) by (rule id_take_nth_drop)
  then have "distinct (take k xs @ xs ! k # drop (Suc k) xs)" using assms(1) by simp
  then show ?thesis by simp
qed

lemma box_corner_multiple:
  fixes m b d :: nat
  assumes "d < b"
  shows "(m * b + d) - (m * b + d) mod b = m * b"
  using assms by simp

lemma fillBox_cells_valid:
  assumes nb: "n = b * b" and m: "m < b" and i: "i = m * b"
    and nums: "distinct numbers" "set numbers \<subseteq> {1..int n}"
  shows "map length g = replicate n n \<Longrightarrow> index + length ps \<le> length numbers \<Longrightarrow>
    \<forall>(di, dj) \<in> set ps. di < b \<and> dj < b \<Longrightarrow> valid_partial n b g \<Longrightarrow>
    \<forall>p \<in> set (allCells n). cell_at g p \<noteq> 0 \<longrightarrow>
       (fst p < i \<and> snd p < i) \<or>
       (fst p < i + b \<and> snd p < i + b \<and> cell_at g p \<in> set (take index numbers)) \<Longrightarrow>
    \<exists>g'. fillBox_cells numbers i i ps index g = Inr g' \<and> map length g' = replicate n n \<and>
         valid_partial n b g' \<and> seeded_within n g' (i + b)"
proof (induction ps arbitrary: index g)
  case Nil
  have "seeded_within n g (i + b)"
    unfolding seeded_within_def
  proof (intro ballI impI)
    fix p assume "p \<in> set (allCells n)" "cell_at g p \<noteq> 0"
    with Nil.prems(5) have "(fst p < i \<and> snd p < i) \<or> (fst p < i + b \<and> snd p < i + b)"
      by blast
    then show "fst p < i + b \<and> snd p < i + b" by auto
  qed
  then show ?case using Nil.prems(1,4) by simp
next
  case (Cons q ps)
  obtain di dj where q: "q = (di, dj)" by (cases q)
  have d: "di < b" "dj < b" using Cons.prems(3) q by auto
  have ib: "i + b \<le> n"
    using m unfolding i nb by (metis Suc_leI add.commute mult_Suc mult_le_mono1)
  let ?r = "i + di" and ?c = "i + dj"
  have pos: "?r < n" "?c < n" using d ib by simp_all
  have ix: "index < length numbers" using Cons.prems(2) by simp
  let ?v = "numbers ! index"
  have vr: "1 \<le> ?v" "?v \<le> int n" using nums(2) ix by (auto dest: nth_mem)
  have l: "length g = n" using arg_cong[OF Cons.prems(1), of length] by simp
  have lr: "length (g ! ?r) = n"
    using arg_cong[OF Cons.prems(1), of "\<lambda>xs. xs ! ?r"] pos l by simp
  have rng: "?r < length g" "?c < length (g ! ?r)" using pos l lr by simp_all
  let ?g1 = "set_cell g ?r ?c ?v"
  have fresh: "?v \<notin> set (take index numbers)" using nth_notin_take[OF nums(1) ix] .
  have free: "?v \<notin> set (unit_values g u)"
    if u: "u \<in> set (all_units n b)" and mem: "(?r, ?c) \<in> set u" for u
  proof
    assume "?v \<in> set (unit_values g u)"
    then obtain p where p: "p \<in> set u" "cell_at g p = ?v" by (auto simp: unit_values_def)
    have pa: "p \<in> set (allCells n)" using all_units_facts(3)[OF nb u] p(1) by blast
    have "\<not> (fst p < i \<and> snd p < i)"
    proof -
      from units_through[OF u mem] consider
        "u = row_positions n ?r" | "u = col_positions n ?c"
        | "u = box_positions b (?r - ?r mod b) (?c - ?c mod b)" by blast
      then show ?thesis
      proof cases
        case 1
        then show ?thesis using p(1) by (auto simp: row_positions_facts)
      next
        case 2
        then show ?thesis using p(1) by (auto simp: col_positions_facts)
      next
        case 3
        have "?r - ?r mod b = i" using box_corner_multiple[OF d(1), of m] i by simp
        then show ?thesis using p(1) 3 by (auto simp: box_positions_facts)
      qed
    qed
    moreover have "cell_at g p \<noteq> 0" using p(2) vr by simp
    ultimately have "cell_at g p \<in> set (take index numbers)"
      using Cons.prems(5) pa by blast
    with fresh p(2) show False by simp
  qed
  have vp1: "valid_partial n b ?g1"
    using valid_partial_set_cell[OF nb Cons.prems(4) rng _ vr(2) free] vr(1) by simp
  have sh1: "map length ?g1 = replicate n n" using Cons.prems(1) by simp
  have inv1: "\<forall>p \<in> set (allCells n). cell_at ?g1 p \<noteq> 0 \<longrightarrow>
       (fst p < i \<and> snd p < i) \<or>
       (fst p < i + b \<and> snd p < i + b \<and> cell_at ?g1 p \<in> set (take (index + 1) numbers))"
  proof (intro ballI impI)
    fix p assume pa: "p \<in> set (allCells n)" and nz: "cell_at ?g1 p \<noteq> 0"
    have tk: "set (take (index + 1) numbers) = insert ?v (set (take index numbers))"
      using ix by (simp add: take_Suc_conv_app_nth)
    show "(fst p < i \<and> snd p < i) \<or>
       (fst p < i + b \<and> snd p < i + b \<and> cell_at ?g1 p \<in> set (take (index + 1) numbers))"
    proof (cases "p = (?r, ?c)")
      case True
      then show ?thesis using d rng tk by (simp add: cell_at_set_cell_same)
    next
      case False
      then have e: "cell_at ?g1 p = cell_at g p" by (rule cell_at_set_cell_other)
      have "cell_at g p \<noteq> 0" using nz e by simp
      with Cons.prems(5) pa have
        "(fst p < i \<and> snd p < i) \<or>
         (fst p < i + b \<and> snd p < i + b \<and> cell_at g p \<in> set (take index numbers))"
        by blast
      then show ?thesis using e tk by auto
    qed
  qed
  have "\<forall>(di, dj) \<in> set ps. di < b \<and> dj < b" using Cons.prems(3) by simp
  moreover have "index + 1 + length ps \<le> length numbers" using Cons.prems(2) by simp
  ultimately obtain g' where g': "fillBox_cells numbers i i ps (index + 1) ?g1 = Inr g'"
    "map length g' = replicate n n" "valid_partial n b g'" "seeded_within n g' (i + b)"
    using Cons.IH[OF sh1 _ _ vp1 inv1] by blast
  have "fillBox_cells numbers i i (q # ps) index g = Inr g'"
    using g'(1) q ix rng by simp
  with g'(2-4) show ?case by blast
qed

lemma shuffled_numbers:
  assumes "fair draw" "shuffle draw (map int [1..<n + 1]) rng = (numbers, rng')"
  shows "distinct numbers" "set numbers \<subseteq> {1..int n}" "length numbers = n"
proof -
  have ms: "mset numbers = mset (map int [1..<n + 1])"
    using shuffle_mset[OF assms(1), of "map int [1..<n + 1]" rng] assms(2) by simp
  have "distinct (map int [1..<n + 1])" by (simp add: distinct_map)
  then show "distinct numbers" using ms by (metis mset_eq_imp_distinct_iff)
  have "set numbers = set (map int [1..<n + 1])" using ms by (rule mset_eq_setD)
  then show "set numbers \<subseteq> {1..int n}" by auto
  show "length numbers = n" using mset_eq_length[OF ms] by simp
qed

lemma fillBox_valid:
  assumes fair: "fair draw" and wf: "well_formed s" and m: "m < boxSize s"
    and vp: "valid_partial (sizeN s) (boxSize s) (board s)"
    and sw: "seeded_within (sizeN s) (board s) (m * boxSize s)"
  shows "\<exists>s' rng'. fillBox draw (m * boxSize s) (m * boxSize s) s rng = Inr (s', rng') \<and>
           same_frame s s' \<and> steps s' = steps s \<and> trace s' = trace s \<and>
           valid_partial (sizeN s) (boxSize s) (board s') \<and>
           seeded_within (sizeN s) (board s') ((m + 1) * boxSize s)"
proof -
  let ?n = "sizeN s" and ?b = "boxSize s"
  have nb: "?n = ?b * ?b" and sh: "map length (board s) = replicate ?n ?n"
    using wf by (simp_all add: well_formed_def)
  obtain numbers rng' where sf: "shuffle draw (map int [1..<?n + 1]) rng = (numbers, rng')"
    by (cases "shuffle draw (map int [1..<?n + 1]) rng")
  note nums = shuffled_numbers[OF fair sf]
  let ?ps = "List.product [0..<?b] [0..<?b]"
  have len: "0 + length ?ps \<le> length numbers" using nums(3) nb by simp
  have off: "\<forall>(di, dj) \<in> set ?ps. di < ?b \<and> dj < ?b" by auto
  have inv: "\<forall>p \<in> set (allCells ?n). cell_at (board s) p \<noteq> 0 \<longrightarrow>
       (fst p < m * ?b \<and> snd p < m * ?b) \<or>
       (fst p < m * ?b + ?b \<and> snd p < m * ?b + ?b \<and>
        cell_at (board s) p \<in> set (take 0 numbers))"
    using sw unfolding seeded_within_def by blast
  from fillBox_cells_valid[OF nb m refl nums(1,2) sh len off vp inv] obtain g' where g':
    "fillBox_cells numbers (m * ?b) (m * ?b) ?ps 0 (board s) = Inr g'"
    "map length g' = replicate ?n ?n" "valid_partial ?n ?b g'"
    "seeded_within ?n g' (m * ?b + ?b)" by blast
  have "fillBox draw (m * ?b) (m * ?b) s rng = Inr (s\<lparr>board := g'\<rparr>, rng')"
    using sf g'(1) by (simp add: fillBox_def)
  moreover have "same_frame s (s\<lparr>board := g'\<rparr>)" using g'(2) sh by (simp add: same_frame_def)
  moreover have "seeded_within ?n g' ((m + 1) * ?b)" using g'(4) by (simp add: add.commute)
  ultimately show ?thesis using g'(3)
    by (intro exI[of _ "s\<lparr>board := g'\<rparr>"] exI[of _ rng']) simp
qed

lemma fillDiagonalBoxes_from_valid:
  assumes fair: "fair draw"
  shows "well_formed s \<Longrightarrow> m \<le> boxSize s \<Longrightarrow> d = boxSize s - m \<Longrightarrow> d < k \<Longrightarrow>
    valid_partial (sizeN s) (boxSize s) (board s) \<Longrightarrow>
    seeded_within (sizeN s) (board s) (m * boxSize s) \<Longrightarrow>
    \<exists>s' rng'. fillDiagonalBoxes_from k draw (m * boxSize s) s rng = Inr (s', rng') \<and>
       same_frame s s' \<and> steps s' = steps s \<and> trace s' = trace s \<and>
       valid_partial (sizeN s) (boxSize s) (board s')"
proof (induction d arbitrary: m s rng k)
  case 0
  then have "m = boxSize s" by simp
  then have "\<not> m * boxSize s < sizeN s" using 0(1) by (simp add: well_formed_def)
  moreover obtain j where "k = Suc j" using 0(4) by (cases k) auto
  ultimately have "fillDiagonalBoxes_from k draw (m * boxSize s) s rng = Inr (s, rng)" by simp
  then show ?case using 0(5) by (simp add: same_frame_def)
next
  case (Suc d)
  let ?n = "sizeN s" and ?b = "boxSize s"
  have m: "m < ?b" using Suc.prems(3) by simp
  have lt: "m * ?b < ?n"
    using m Suc.prems(1) by (simp add: well_formed_def)
  obtain j where j: "k = Suc j" "d < j" using Suc.prems(4) by (cases k) auto
  from fillBox_valid[OF fair Suc.prems(1) m Suc.prems(5,6), of rng] obtain s1 rng1 where s1:
    "fillBox draw (m * ?b) (m * ?b) s rng = Inr (s1, rng1)" "same_frame s s1"
    "steps s1 = steps s" "trace s1 = trace s"
    "valid_partial ?n ?b (board s1)" "seeded_within ?n (board s1) ((m + 1) * ?b)" by blast
  have fr: "sizeN s1 = ?n" "boxSize s1 = ?b" "well_formed s1"
    using s1(2) same_frame_well_formed[OF s1(2) Suc.prems(1)] by (simp_all add: same_frame_def)
  have "\<exists>s' rng'. fillDiagonalBoxes_from j draw ((m + 1) * boxSize s1) s1 rng1 = Inr (s', rng') \<and>
       same_frame s1 s' \<and> steps s' = steps s1 \<and> trace s' = trace s1 \<and>
       valid_partial (sizeN s1) (boxSize s1) (board s')"
    using Suc.prems(3) m j(2) s1(5,6) fr by (intro Suc.IH) simp_all
  then obtain s' rng' where s': "fillDiagonalBoxes_from j draw ((m + 1) * ?b) s1 rng1 = Inr (s', rng')"
    "same_frame s1 s'" "steps s' = steps s1" "trace s' = trace s1"
    "valid_partial ?n ?b (board s')" using fr by auto
  have "fillDiagonalBoxes_from k draw (m * ?b) s rng = Inr (s', rng')"
    using lt s1(1) s'(1) fr j(1) by (simp add: add.commute)
  moreover have "same_frame s s'" using s1(2) s'(2) by (simp add: same_frame_def)
  ultimately show ?case using s'(3-5) s1(3,4) by auto
qed

lemma initial_state:
  assumes "0 < b"
  shows "well_formed (initial (b * b))" "sizeN (initial (b * b)) = b * b"
    "boxSize (initial (b * b)) = b"
    "valid_partial (b * b) b (board (initial (b * b)))"
    "seeded_within (b * b) (board (initial (b * b))) 0"
proof -
  let ?n = "b * b"
  show "well_formed (initial ?n)" "sizeN (initial ?n) = ?n" "boxSize (initial ?n) = b"
    using assms by (simp_all add: well_formed_def initial_def createEmptyBoard_def)
  have z: "cell_at (board (initial ?n)) p = 0" if "p \<in> set (allCells ?n)" for p
    using that by (auto simp: initial_def createEmptyBoard_def cell_at_def)
  then show "seeded_within ?n (board (initial ?n)) 0" by (simp add: seeded_within_def)
  have "filter (\<lambda>v. v \<noteq> 0) (unit_values (board (initial ?n)) u) = []"
    if "u \<in> set (all_units ?n b)" for u
    using all_units_facts(3)[OF refl that] z by (auto simp: unit_values_def filter_empty_conv)
  then show "valid_partial ?n b (board (initial ?n))"
    using z unfolding valid_partial_def by simp
qed

lemma fillDiagonalBoxes_valid:
  assumes "fair draw" "0 < b" "b < k"
  shows "\<exists>s1 rng1. fillDiagonalBoxes k draw (initial (b * b)) rng = Inr (s1, rng1) \<and>
           well_formed s1 \<and> sizeN s1 = b * b \<and> boxSize s1 = b \<and>
           steps s1 = 0 \<and> trace s1 = [] \<and> valid_partial (b * b) b (board s1)"
proof -
  note ini = initial_state[OF assms(2)]
  have "\<exists>s' rng'. fillDiagonalBoxes_from k draw (0 * boxSize (initial (b * b))) (initial (b * b)) rng
            = Inr (s', rng') \<and>
       same_frame (initial (b * b)) s' \<and> steps s' = steps (initial (b * b)) \<and>
       trace s' = trace (initial (b * b)) \<and>
       valid_partial (sizeN (initial (b * b))) (boxSize (initial (b * b))) (board s')"
    using ini assms(3) by (intro fillDiagonalBoxes_from_valid[OF assms(1)]) simp_all
  then obtain s1 rng1 where s1:
    "fillDiagonalBoxes k draw (initial (b * b)) rng = Inr (s1, rng1)"
    "same_frame (initial (b * b)) s1" "steps s1 = steps (initial (b * b))"
    "trace s1 = trace (initial (b * b))" "valid_partial (b * b) b (board s1)"
    using ini by (auto simp: fillDiagonalBoxes_def)
  have "well_formed s1" "sizeN s1 = b * b" "boxSize s1 = b"
    using s1(2) same_frame_well_formed[OF s1(2) ini(1)] ini(2,3) by (simp_all add: same_frame_def)
  moreover have "steps s1 = 0" "trace s1 = []" using s1(3,4) by (simp_all add: initial_def)
  ultimately show ?thesis using s1(1,5) by blast
qed

lemma fillDiagonalBoxes_from_fuel:
  "fillDiagonalBoxes_from k draw i s rng = Inr r \<Longrightarrow> k \<le> k' \<Longrightarrow>
   fillDiagonalBoxes_from k' draw i s rng = Inr r"
proof (induction k arbitrary: i s rng k')
  case 0
  then show ?case by simp
next
  case (Suc k)
  obtain j where j: "k' = Suc j" "k \<le> j" using Suc.prems(2) by (cases k') auto
  show ?case
  proof (cases "i < sizeN s")
    case False
    then show ?thesis using Suc.prems(1) j by simp
  next
    case True
    then obtain s1 rng1 where f: "fillBox draw i i s rng = Inr (s1, rng1)"
      "fillDiagonalBoxes_from k draw (i + boxSize s1) s1 rng1 = Inr r"
      using Suc.prems(1) by (auto split: sum.splits)
    from Suc.IH[OF f(2) j(2)] f(1) True j(1) show ?thesis by simp
  qed
qed

lemma removeDigits_keeps:
  assumes "removeDigits draw d s rng = Inr (s', rng')"
  shows "solution s' = solution s" "sizeN s' = sizeN s" "boxSize s' = boxSize s"
  using assms
  by (auto simp: removeDigits_def Let_def split: if_splits sum.splits prod.splits)

lemma Sudoku_unfold:
  assumes "Sudoku k draw n f rng = Inr ((g, s), rng')"
  obtains s1 rng1 ok s2 where
    "fillDiagonalBoxes k draw (initial n) rng = Inr (s1, rng1)"
    "solveBoard k s1 = Inr (ok, s2)"
    "removeDigits draw DEFAULT_DIFFICULTY (s2\<lparr>solution := board s2\<rparr>) rng1 = Inr (s, rng')"
    "g = f"
  using assms
  by (auto simp: Sudoku_def generatePuzzle_def initial_def split: sum.splits prod.splits)

lemma solveBoard_terminates:
  assumes "well_formed s"
  shows "\<exists>j ok s'. solveBoard j s = Inr (ok, s')"
  using solveBoard_agrees[OF assms] by blast

lemma default_cast_in_range:
  assumes "int (n * n) \<le> INT_MAX"
  shows "- INT_MAX - 1 \<le> cast_to_int (of_int (int (n * n)) * DEFAULT_DIFFICULTY)"
    "cast_to_int (of_int (int (n * n)) * DEFAULT_DIFFICULTY) \<le> INT_MAX"
proof -
  have d: "0 \<le> DEFAULT_DIFFICULTY" "DEFAULT_DIFFICULTY \<le> 1" by (simp_all add: DEFAULT_DIFFICULTY_def)
  have fl: "cast_to_int (of_int (int (n * n)) * DEFAULT_DIFFICULTY) =
            \<lfloor>of_int (int (n * n)) * DEFAULT_DIFFICULTY\<rfloor>"
    using d(1) by (intro cast_to_int_nonneg) simp
  show "- INT_MAX - 1 \<le> cast_to_int (of_int (int (n * n)) * DEFAULT_DIFFICULTY)"
    "cast_to_int (of_int (int (n * n)) * DEFAULT_DIFFICULTY) \<le> INT_MAX"
    using removal_bounds[OF d, of "n * n"] assms unfolding fl INT_MAX_def by linarith+
qed

text \<open>
  The constructor returns: for a size \<open>b * b\<close> whose square fits an \<open>int\<close> and a fair
  shuffle, enough fuel makes \<open>Sudoku\<close> return an object.
\<close>

lemma Sudoku_returns:
  assumes fair: "fair draw" and b: "0 < b" and small: "int ((b * b) * (b * b)) \<le> INT_MAX"
  shows "\<exists>k s rng'. Sudoku k draw (b * b) f rng = Inr ((f, s), rng')"
proof -
  let ?n = "b * b"
  from fillDiagonalBoxes_valid[OF fair b lessI, of rng] obtain s1 rng1 where s1:
    "fillDiagonalBoxes (Suc b) draw (initial ?n) rng = Inr (s1, rng1)"
    "well_formed s1" "sizeN s1 = ?n" by blast
  from solveBoard_terminates[OF s1(2)] obtain j ok s2 where s2:
    "solveBoard j s1 = Inr (ok, s2)" by blast
  let ?k = "max (Suc b) j"
  have f: "fillDiagonalBoxes ?k draw (initial ?n) rng = Inr (s1, rng1)"
    using fillDiagonalBoxes_from_fuel[OF s1(1)[unfolded fillDiagonalBoxes_def], of ?k]
    by (simp add: fillDiagonalBoxes_def)
  have sb: "solveBoard ?k s1 = Inr (ok, s2)" using solveBoard_fuel_mono(1)[OF s2] by simp
  let ?s3 = "s2\<lparr>solution := board s2\<rparr>"
  have fr: "same_frame s1 s2" using solveBoard_same_frame(1)[OF s2] by simp
  then have n3: "sizeN ?s3 = ?n" and sh3: "map length (board ?s3) = replicate (sizeN ?s3) (sizeN ?s3)"
    using s1(2,3) by (simp_all add: same_frame_def well_formed_def)
  have sm3: "int (sizeN ?s3 * sizeN ?s3) \<le> INT_MAX" using small n3 by simp
  from removeDigits_result[OF fair sh3 sm3 default_cast_in_range[OF sm3], of rng1]
  obtain s rng' where r: "removeDigits draw DEFAULT_DIFFICULTY ?s3 rng1 = Inr (s, rng')"
    by blast
  have "Sudoku ?k draw ?n f rng = Inr ((f, s), rng')"
    using f sb r by (simp add: Sudoku_def generatePuzzle_def)
  then show ?thesis by blast
qed

section \<open>The generated solution\<close>

text \<open>
  Claim C1.  The generation-time solve runs on one kind of grid only: the empty board
  of the constructor with its diagonal boxes seeded.  For a size \<open>b * b\<close> and any fair
  shuffle, that seeded grid is a valid partial state, and whenever the constructor
  returns and its call of \<open>solveBoard\<close> reported success, the grid kept as the solution
  is solved: every row, every column and every box holds each of \<open>1..size\<close> exactly
  once.  (The source drops the boolean of \<open>solveBoard\<close>; if it were false, the solution
  would be the seeded grid.)  The constructor does return, by \<open>Sudoku_returns\<close>, and
  \<open>solveBoard_sound\<close> is the same statement for every well-formed valid partial state.
\<close>

theorem generated_solution_solved:
  assumes "fair draw" "0 < b"
    and "Sudoku k draw (b * b) f rng = Inr ((g, s), rng')"
  shows "\<exists>s1 rng1 ok s2.
           fillDiagonalBoxes k draw (initial (b * b)) rng = Inr (s1, rng1) \<and>
           well_formed s1 \<and> valid_partial (b * b) b (board s1) \<and>
           solveBoard k s1 = Inr (ok, s2) \<and> solution s = board s2 \<and>
           (ok \<longrightarrow> solved (b * b) b (solution s))"
proof -
  from assms(3) obtain s1 rng1 ok s2 where r:
    "fillDiagonalBoxes k draw (initial (b * b)) rng = Inr (s1, rng1)"
    "solveBoard k s1 = Inr (ok, s2)"
    "removeDigits draw DEFAULT_DIFFICULTY (s2\<lparr>solution := board s2\<rparr>) rng1 = Inr (s, rng')"
    by (rule Sudoku_unfold)
  have "b < max k (Suc b)" by simp
  from fillDiagonalBoxes_valid[OF assms(1,2) this, of rng] obtain t1 u1 where t:
    "fillDiagonalBoxes (max k (Suc b)) draw (initial (b * b)) rng = Inr (t1, u1)"
    "well_formed t1" "sizeN t1 = b * b" "boxSize t1 = b" "valid_partial (b * b) b (board t1)"
    by blast
  have "fillDiagonalBoxes (max k (Suc b)) draw (initial (b * b)) rng = Inr (s1, rng1)"
    using fillDiagonalBoxes_from_fuel[OF r(1)[unfolded fillDiagonalBoxes_def], of "max k (Suc b)"]
    by (simp add: fillDiagonalBoxes_def)
  with t(1) have e: "t1 = s1" by simp
  have sol: "solution s = board s2" using removeDigits_keeps(1)[OF r(3)] by simp
  have "solved (b * b) b (solution s)" if ok
    using solveBoard_sound[of k s1 s2] r(2) that t(2-5) unfolding e sol by simp
  with r(1,2) t(2,5) e sol show ?thesis by blast
qed

theorem generated_solution_solved_witness:
  "fair rev_draw \<and> (0::nat) < 2 \<and>
   \<not> isl (Sudoku 60 rev_draw (2 * 2) None ()) \<and>
   fillDiagonalBoxes 60 rev_draw (initial (2 * 2)) () = Inr (seed4, ()) \<and>
   solveBoard 60 seed4 = Inr (True, final (solveBoard 60 seed4)) \<and>
   solution (constructed (Sudoku 60 rev_draw (2 * 2) None ())) =
     [[4, 3, 1, 2], [2, 1, 3, 4], [1, 2, 4, 3], [3, 4, 2, 1]] \<and>
   solved (2 * 2) 2 (solution (constructed (Sudoku 60 rev_draw (2 * 2) None ())))"
proof -
  have fair: "fair rev_draw" by (simp add: fair_def rev_draw_def)
  have nl: "\<not> isl (Sudoku 60 rev_draw (2 * 2) None ())" by code_simp
  then obtain g s r where c: "Sudoku 60 rev_draw (2 * 2) None () = Inr ((g, s), r)"
    by (cases "Sudoku 60 rev_draw (2 * 2) None ()") auto
  have fill: "fillDiagonalBoxes 60 rev_draw (initial (2 * 2)) () = Inr (seed4, ())" by code_simp
  have run: "solveBoard 60 seed4 = Inr (True, final (solveBoard 60 seed4))" by code_simp
  have sol: "solution (constructed (Sudoku 60 rev_draw (2 * 2) None ())) =
     [[4, 3, 1, 2], [2, 1, 3, 4], [1, 2, 4, 3], [3, 4, 2, 1]]" by code_simp
  from generated_solution_solved[OF fair _ c] obtain s1 rng1 ok s2 where t:
    "fillDiagonalBoxes 60 rev_draw (initial (2 * 2)) () = Inr (s1, rng1)"
    "solveBoard 60 s1 = Inr (ok, s2)" "ok \<longrightarrow> solved (2 * 2) 2 (solution s)"
    by auto
  from t(1) fill have "s1 = seed4" by simp
  with t(2) run have "ok" by simp
  with t(3) have "solved (2 * 2) 2 (solution s)" by simp
  moreover have "constructed (Sudoku 60 rev_draw (2 * 2) None ()) = s"
    unfolding c by (simp add: constructed_def)
  ultimately show ?thesis using fair nl fill run sol by simp
qed

end
